theory Spec2Isabelle
  imports Complex_Main "HOL-Library.Multiset" "HOL-Library.Product_Lexorder" "HOL-Library.Sublist"
begin

section \<open>Daily quota: \<open>enforce_quota\<close> of \<open>src/lambda/app.py\<close>\<close>

text \<open>
  The quota table holds one item per key \<open>(pk, sk)\<close>. Of an item, the code reads and writes
  the numeric attributes \<open>cnt\<close> and \<open>expires\<close>; an attribute may be missing from an item
  that exists, which is what \<open>attribute_not_exists\<close> and \<open>if_not_exists\<close> ask about.
\<close>

record item =
  cnt :: "int option"
  expires :: "int option"

type_synonym store = "string \<times> string \<Rightarrow> item option"

text \<open>
  The module-level settings read from the environment: \<open>FEATURE_QUOTA_ENABLED\<close>,
  \<open>QUOTA_TABLE\<close> (\<open>os.environ.get\<close> gives \<open>None\<close> when the variable is unset) and
  \<open>QUOTA_LIMIT\<close>, which \<open>int(...)\<close> lets be any integer.
\<close>

record config =
  FEATURE_QUOTA_ENABLED :: bool
  QUOTA_TABLE :: "string option"
  QUOTA_LIMIT :: int

text \<open>
  The rejection that \<open>enforce_quota\<close> raises is a \<open>RuntimeError\<close> whose payload is the
  429 response; of that response the model keeps the status and the two rate-limit headers
  (as numbers, where the code writes their decimal strings). Every other \<open>ClientError\<close> is
  raised again unchanged and is identified by its error code.
\<close>

record response =
  statusCode :: int
  x_ratelimit_limit :: int
  x_ratelimit_remaining :: int

datatype quota_error = RuntimeError response | ClientError string | KeyError

text \<open>
  \<open>dynamo.update_item\<close> with the two expressions of the source:
  \<open>SET cnt = if_not_exists(cnt, :z) + :one, expires = :ttl\<close> under the condition
  \<open>attribute_not_exists(cnt) OR cnt < :lim\<close>, returning \<open>ALL_NEW\<close>. The call is one
  conditional write of the store: either the condition holds and the item is replaced, or the
  call fails with \<open>ConditionalCheckFailedException\<close> and the store is as before. A fault of
  the backend (the first argument, the error code) fails the call without a write.
\<close>

definition stored_cnt :: "store \<Rightarrow> string \<times> string \<Rightarrow> int option" where
  "stored_cnt st k = (case st k of None \<Rightarrow> None | Some it \<Rightarrow> cnt it)"

definition update_item ::
  "string option \<Rightarrow> string \<times> string \<Rightarrow> int \<Rightarrow> int \<Rightarrow> store \<Rightarrow> (string + item) \<times> store" where
  "update_item fault k lmt ttl st =
     (case fault of
        Some code \<Rightarrow> (Inl code, st)
      | None \<Rightarrow>
          (case stored_cnt st k of
             None \<Rightarrow>
               (let new = \<lparr>cnt = Some (0 + 1), expires = Some ttl\<rparr>
                in (Inr new, st(k \<mapsto> new)))
           | Some c \<Rightarrow>
               if c < lmt
               then (let new = \<lparr>cnt = Some (c + 1), expires = Some ttl\<rparr>
                     in (Inr new, st(k \<mapsto> new)))
               else (Inl ''ConditionalCheckFailedException'', st)))"

text \<open>
  \<open>enforce_quota\<close>. The caller's identity (\<open>_client_id(event)\<close>), the UTC day and the next
  midnight come from the request and the clock and are arguments here. The result is the new
  count or the error raised, together with the store after the call.
\<close>

definition enforce_quota ::
  "config \<Rightarrow> string option \<Rightarrow> string \<Rightarrow> string \<Rightarrow> int \<Rightarrow> store \<Rightarrow> (quota_error + int) \<times> store" where
  "enforce_quota cfg fault user_id day ttl st =
     (if \<not> FEATURE_QUOTA_ENABLED cfg \<or> QUOTA_TABLE cfg = None \<or> QUOTA_TABLE cfg = Some ''''
      then (Inr 0, st)
      else
        (let pk = ''user#'' @ user_id; sk = day in
         case update_item fault (pk, sk) (QUOTA_LIMIT cfg) ttl st of
           (Inr new, st') \<Rightarrow>
             (case cnt new of
                Some n \<Rightarrow> (Inr n, st')
              | None \<Rightarrow> (Inl KeyError, st'))
         | (Inl code, st') \<Rightarrow>
             if code = ''ConditionalCheckFailedException''
             then (Inl (RuntimeError \<lparr>statusCode = 429,
                                       x_ratelimit_limit = QUOTA_LIMIT cfg,
                                       x_ratelimit_remaining = 0\<rparr>), st')
             else (Inl (ClientError code), st')))"

text \<open>
  The pre-increment count of the claims: the stored \<open>cnt\<close>, a missing record (or a missing
  attribute) counting as 0.
\<close>

definition count_of :: "store \<Rightarrow> string \<times> string \<Rightarrow> int" where
  "count_of st k = (case stored_cnt st k of None \<Rightarrow> 0 | Some c \<Rightarrow> c)"

definition quota_key :: "string \<Rightarrow> string \<Rightarrow> string \<times> string" where
  "quota_key user_id day = (''user#'' @ user_id, day)"

definition quota_on :: "int \<Rightarrow> config" where
  "quota_on lmt = \<lparr>FEATURE_QUOTA_ENABLED = True, QUOTA_TABLE = Some ''quota'', QUOTA_LIMIT = lmt\<rparr>"

definition is_QuotaExceeded :: "quota_error + int \<Rightarrow> bool" where
  "is_QuotaExceeded r = (case r of Inl (RuntimeError resp) \<Rightarrow> statusCode resp = 429 | _ \<Rightarrow> False)"

definition is_success :: "quota_error + int \<Rightarrow> bool" where
  "is_success r = (case r of Inr _ \<Rightarrow> True | Inl _ \<Rightarrow> False)"

definition quota_active :: "config \<Rightarrow> bool" where
  "quota_active cfg =
     (FEATURE_QUOTA_ENABLED cfg \<and> QUOTA_TABLE cfg \<noteq> None \<and> QUOTA_TABLE cfg \<noteq> Some '''')"

definition empty_store :: store where
  "empty_store = (\<lambda>k. None)"

text \<open>
  A history of the table: the attempts made on it, one conditional write each, in the order in
  which the store applied them. Attempts of concurrent callers are attempts of one history,
  in some order.
\<close>

record attempt =
  a_fault :: "string option"
  a_user :: string
  a_day :: string
  a_ttl :: int

definition attempt_key :: "attempt \<Rightarrow> string \<times> string" where
  "attempt_key a = quota_key (a_user a) (a_day a)"

fun run_attempts :: "config \<Rightarrow> attempt list \<Rightarrow> store \<Rightarrow> (quota_error + int) list \<times> store" where
  "run_attempts cfg [] st = ([], st)"
| "run_attempts cfg (a # as) st =
     (case enforce_quota cfg (a_fault a) (a_user a) (a_day a) (a_ttl a) st of
        (r, st') \<Rightarrow> (case run_attempts cfg as st' of (rs, st'') \<Rightarrow> (r # rs, st'')))"

text \<open>
  The state machine of the specification, per key: the state a store shows for a key, and the
  state that one more attempt leads to.
\<close>

datatype key_state = ABSENT | COUNTING int | SATURATED

definition state_of :: "int \<Rightarrow> store \<Rightarrow> string \<times> string \<Rightarrow> key_state" where
  "state_of lmt st k =
     (case stored_cnt st k of
        None \<Rightarrow> ABSENT
      | Some c \<Rightarrow> if c < lmt then COUNTING c else SATURATED)"

fun next_state :: "int \<Rightarrow> key_state \<Rightarrow> key_state" where
  "next_state lmt ABSENT = (if 1 < lmt then COUNTING 1 else SATURATED)"
| "next_state lmt (COUNTING c) = (if c + 1 < lmt then COUNTING (c + 1) else SATURATED)"
| "next_state lmt SATURATED = SATURATED"

text \<open>The results of a history that belong to the attempts on one key, in order.\<close>

fun results_on :: "string \<times> string \<Rightarrow> attempt list \<Rightarrow> (quota_error + int) list \<Rightarrow> (quota_error + int) list" where
  "results_on k (a # as) (r # rs) =
     (if attempt_key a = k then r # results_on k as rs else results_on k as rs)"
| "results_on k _ _ = []"

text \<open>
  The invariant of the table: every item carries a count, between 1 and the limit. And the
  rejection that \<open>enforce_quota\<close> raises when the condition of the write fails.
\<close>

definition within_limit :: "int \<Rightarrow> store \<Rightarrow> bool" where
  "within_limit lmt st =
     (\<forall>k. case st k of
            None \<Rightarrow> True
          | Some it \<Rightarrow> (case cnt it of None \<Rightarrow> False | Some c \<Rightarrow> 1 \<le> c \<and> c \<le> lmt))"

definition rejection :: "config \<Rightarrow> quota_error + int" where
  "rejection cfg = Inl (RuntimeError \<lparr>statusCode = 429, x_ratelimit_limit = QUOTA_LIMIT cfg,
                                       x_ratelimit_remaining = 0\<rparr>)"

section \<open>Text detections\<close>

text \<open>
  A Python float is modelled by the real number it stands for; infinities and NaN are not
  part of the model. Comparisons, \<open>min\<close>, \<open>max\<close>, \<open>round\<close> and \<open>int\<close> act on that number
  exactly. The arithmetic of \<open>_iou\<close> is modelled as exact. In
  \<open>_group_words_into_lines\<close> the rounding of \<open>+\<close>, \<open>-\<close>, \<open>*\<close> and \<open>/\<close> decides the
  row of a word, so there the four operations are a parameter of the model, \<open>ops\<close>: what is
  proved for every \<open>ops\<close> holds for the operations of the doubles. \<open>exact_ops\<close> is exact
  arithmetic. A \<open>TextDetection\<close> of the vision service is a record of the keys the code
  reads; \<open>Type\<close> is optional because the lines rebuilt after grouping carry none.
\<close>

record float_ops =
  f_add :: "real \<Rightarrow> real \<Rightarrow> real"
  f_sub :: "real \<Rightarrow> real \<Rightarrow> real"
  f_mul :: "real \<Rightarrow> real \<Rightarrow> real"
  f_div :: "real \<Rightarrow> real \<Rightarrow> real"

definition exact_ops :: float_ops where
  "exact_ops = \<lparr>f_add = (\<lambda>x y. x + y), f_sub = (\<lambda>x y. x - y),
                 f_mul = (\<lambda>x y. x * y), f_div = (\<lambda>x y. x / y)\<rparr>"

record bbox =
  Left :: real
  Top :: real
  Width :: real
  Height :: real

record detection =
  Type :: "string option"
  DetectedText :: string
  Confidence :: real
  BoundingBox :: bbox

text \<open>The entries of \<open>uniq\<close>, the list that \<open>_detect_text_lines_by_s3\<close> returns.\<close>

record uniq_line =
  u_DetectedText :: string
  u_Confidence :: real
  u_Box :: bbox

datatype py_error = ZeroDivisionError | ValueError

subsection \<open>\<open>_norm_text\<close>\<close>

text \<open>
  A \<open>char\<close> stands for the code point of the same number, so the model covers the strings of
  code points below 256. \<open>is_space\<close> is what \<open>\s\<close> and \<open>str.strip\<close> take for whitespace
  there, \<open>lower_char\<close> what \<open>str.lower\<close> does.
\<close>

definition is_space :: "char \<Rightarrow> bool" where
  "is_space c =
     (let n = (of_char c :: nat)
      in (9 \<le> n \<and> n \<le> 13) \<or> (28 \<le> n \<and> n \<le> 32) \<or> n = 133 \<or> n = 160)"

definition lower_char :: "char \<Rightarrow> char" where
  "lower_char c =
     (let n = (of_char c :: nat)
      in if (65 \<le> n \<and> n \<le> 90) \<or> (192 \<le> n \<and> n \<le> 222 \<and> n \<noteq> 215)
         then char_of (n + 32) else c)"

function collapse_ws :: "string \<Rightarrow> string" where
  "collapse_ws [] = []"
| "collapse_ws (c # cs) =
     (if is_space c then CHR '' '' # collapse_ws (dropWhile is_space cs)
      else c # collapse_ws cs)"
  by pat_completeness auto
termination
  by (relation "measure length") (auto simp: le_imp_less_Suc length_dropWhile_le)

definition strip :: "string \<Rightarrow> string" where
  "strip s = rev (dropWhile is_space (rev (dropWhile is_space s)))"

definition norm_text :: "string \<Rightarrow> string" where
  "norm_text s = map lower_char (strip (collapse_ws s))"

subsection \<open>\<open>_iou\<close>\<close>

text \<open>
  The source defines \<open>_iou\<close> twice, at module level and inside
  \<open>_detect_text_lines_by_s3\<close>, with the same body. Python's \<open>/\<close> raises
  \<open>ZeroDivisionError\<close> on a zero divisor.
\<close>

definition eps :: real where
  "eps = 1 / 10 ^ 9"

definition py_truediv :: "real \<Rightarrow> real \<Rightarrow> py_error + real" where
  "py_truediv a b = (if b = 0 then Inl ZeroDivisionError else Inr (a / b))"

definition inter_area :: "bbox \<Rightarrow> bbox \<Rightarrow> real" where
  "inter_area bb1 bb2 =
     (let x1 = Left bb1; y1 = Top bb1;
          x2 = x1 + Width bb1; y2 = y1 + Height bb1;
          a1 = Left bb2; b1 = Top bb2;
          a2 = a1 + Width bb2; b2 = b1 + Height bb2;
          inter_x1 = max x1 a1; inter_y1 = max y1 b1;
          inter_x2 = min x2 a2; inter_y2 = min y2 b2;
          iw = max 0 (inter_x2 - inter_x1); ih = max 0 (inter_y2 - inter_y1)
      in iw * ih)"

definition iou_denominator :: "bbox \<Rightarrow> bbox \<Rightarrow> real" where
  "iou_denominator bb1 bb2 =
     (let x1 = Left bb1; y1 = Top bb1;
          x2 = x1 + Width bb1; y2 = y1 + Height bb1;
          a1 = Left bb2; b1 = Top bb2;
          a2 = a1 + Width bb2; b2 = b1 + Height bb2;
          area1 = (x2 - x1) * (y2 - y1);
          area2 = (a2 - a1) * (b2 - b1)
      in area1 + area2 - inter_area bb1 bb2 + eps)"

definition iou :: "bbox \<Rightarrow> bbox \<Rightarrow> py_error + real" where
  "iou bb1 bb2 =
     (let inter = inter_area bb1 bb2
      in if inter = 0 then Inr 0
         else py_truediv inter (iou_denominator bb1 bb2))"

text \<open>
  The width and the height of the intersection, as \<open>_iou\<close> computes them (\<open>iw\<close>,
  \<open>ih\<close>), and three boxes for the examples.
\<close>

definition iw_of :: "bbox \<Rightarrow> bbox \<Rightarrow> real" where
  "iw_of a b = max 0 (min (Left a + Width a) (Left b + Width b) - max (Left a) (Left b))"

definition ih_of :: "bbox \<Rightarrow> bbox \<Rightarrow> real" where
  "ih_of a b = max 0 (min (Top a + Height a) (Top b + Height b) - max (Top a) (Top b))"

definition unit_box :: bbox where
  "unit_box = \<lparr>Left = 0, Top = 0, Width = 1, Height = 1\<rparr>"

definition far_box :: bbox where
  "far_box = \<lparr>Left = 2, Top = 2, Width = 1, Height = 1\<rparr>"

definition point_box :: bbox where
  "point_box = \<lparr>Left = 0, Top = 0, Width = 0, Height = 0\<rparr>"

subsection \<open>\<open>_group_words_into_lines\<close>\<close>

definition center_y :: "float_ops \<Rightarrow> bbox \<Rightarrow> real" where
  "center_y ops bb = f_add ops (Top bb) (f_div ops (Height bb) 2)"

text \<open>\<open>round(x)\<close> rounds a half to the even neighbour; \<open>int(x)\<close> truncates towards zero.\<close>

definition py_round :: "real \<Rightarrow> int" where
  "py_round x =
     (let f = \<lfloor>x\<rfloor>; d = x - of_int f
      in if d < 1 / 2 then f
         else if 1 / 2 < d then f + 1
         else if even f then f else f + 1)"

definition py_int :: "real \<Rightarrow> int" where
  "py_int x = (if 0 \<le> x then \<lfloor>x\<rfloor> else \<lceil>x\<rceil>)"

definition band :: real where
  "band = 4 / 100"

definition words_sort_key :: "float_ops \<Rightarrow> detection \<Rightarrow> int \<times> real" where
  "words_sort_key ops w =
     (py_round (f_mul ops (center_y ops (BoundingBox w)) 100), Left (BoundingBox w))"

definition row_of :: "float_ops \<Rightarrow> detection \<Rightarrow> int" where
  "row_of ops w = py_int (f_div ops (center_y ops (BoundingBox w)) band)"

text \<open>
  \<open>rows\<close> is a dict from row number to the words of the row, in insertion order;
  \<open>rows.setdefault(r, []).append(w)\<close> appends to the entry of \<open>r\<close>, creating it last.
\<close>

fun setdefault_append :: "int \<Rightarrow> detection \<Rightarrow> (int \<times> detection list) list \<Rightarrow> (int \<times> detection list) list" where
  "setdefault_append r w [] = [(r, [w])]"
| "setdefault_append r w ((k, ws) # rows) =
     (if k = r then (k, ws @ [w]) # rows else (k, ws) # setdefault_append r w rows)"

definition build_rows :: "float_ops \<Rightarrow> detection list \<Rightarrow> (int \<times> detection list) list" where
  "build_rows ops words = fold (\<lambda>w rows. setdefault_append (row_of ops w) w rows) words []"

text \<open>
  \<open>min\<close> and \<open>max\<close> of a list raise \<open>ValueError\<close> on the empty list. \<open>sum\<close> adds from
  the left, starting at 0.
\<close>

fun py_min :: "real list \<Rightarrow> py_error + real" where
  "py_min [] = Inl ValueError"
| "py_min (x # xs) = Inr (fold min xs x)"

fun py_max :: "real list \<Rightarrow> py_error + real" where
  "py_max [] = Inl ValueError"
| "py_max (x # xs) = Inr (fold max xs x)"

definition py_sum :: "float_ops \<Rightarrow> real list \<Rightarrow> real" where
  "py_sum ops xs = foldl (f_add ops) 0 xs"

fun join_sp :: "string list \<Rightarrow> string" where
  "join_sp [] = []"
| "join_sp [s] = s"
| "join_sp (s # t # ts) = s @ '' '' @ join_sp (t # ts)"

text \<open>The body of the loop over the sorted rows: the line built from the words of one row.\<close>

definition make_line :: "float_ops \<Rightarrow> detection list \<Rightarrow> py_error + detection" where
  "make_line ops ws0 =
     (let ws = sort_key (\<lambda>w. Left (BoundingBox w)) ws0;
          text = join_sp (map DetectedText ws);
          conf = f_div ops (py_sum ops (map Confidence ws)) (real (max 1 (length ws)));
          lefts = map (\<lambda>w. Left (BoundingBox w)) ws;
          tops = map (\<lambda>w. Top (BoundingBox w)) ws;
          rights = map (\<lambda>(l, w). f_add ops l (Width (BoundingBox w))) (zip lefts ws);
          bots = map (\<lambda>(t, w). f_add ops t (Height (BoundingBox w))) (zip tops ws)
      in case (py_min lefts, py_min tops, py_max rights, py_max bots) of
           (Inr min_l, Inr min_t, Inr max_r, Inr max_b) \<Rightarrow>
             Inr \<lparr>Type = Some ''LINE'', DetectedText = text, Confidence = conf,
                  BoundingBox = \<lparr>Left = min_l, Top = min_t,
                                 Width = f_sub ops max_r min_l,
                                 Height = f_sub ops max_b min_t\<rparr>\<rparr>
         | _ \<Rightarrow> Inl ValueError)"

fun build_lines :: "float_ops \<Rightarrow> (int \<times> detection list) list \<Rightarrow> py_error + detection list" where
  "build_lines ops [] = Inr []"
| "build_lines ops ((r, ws) # rows) =
     (case make_line ops ws of
        Inl e \<Rightarrow> Inl e
      | Inr l \<Rightarrow> (case build_lines ops rows of Inl e \<Rightarrow> Inl e | Inr ls \<Rightarrow> Inr (l # ls)))"

text \<open>
  \<open>words.sort(...)\<close> sorts the caller's list in place, so the function has two results: the
  list \<open>words\<close> as the call leaves it, and the value returned.
\<close>

definition group_words_into_lines ::
  "float_ops \<Rightarrow> detection list \<Rightarrow> detection list \<times> (py_error + detection list)" where
  "group_words_into_lines ops words =
     (if words = [] then (words, Inr [])
      else (let words' = sort_key (words_sort_key ops) words;
                rows = build_rows ops words'
            in (words', build_lines ops (sort_key fst rows))))"

subsection \<open>\<open>_detect_text_lines_by_s3\<close>\<close>

text \<open>
  The function is modelled from the reply of \<open>rekognition.detect_text\<close> on: its first
  argument is the list \<open>TextDetections\<close> of the reply.
\<close>

fun is_dup_scan :: "string \<Rightarrow> bbox \<Rightarrow> uniq_line list \<Rightarrow> py_error + bool" where
  "is_dup_scan txtn bb [] = Inr False"
| "is_dup_scan txtn bb (u # us) =
     (if norm_text (u_DetectedText u) = txtn
      then (case iou bb (u_Box u) of
              Inl e \<Rightarrow> Inl e
            | Inr v \<Rightarrow> if 1 / 2 < v then Inr True else is_dup_scan txtn bb us)
      else is_dup_scan txtn bb us)"

fun dedup_loop :: "detection list \<Rightarrow> uniq_line list \<Rightarrow> py_error + uniq_line list" where
  "dedup_loop [] uniq = Inr uniq"
| "dedup_loop (l # ls) uniq =
     (let txt = DetectedText l; bb = BoundingBox l; txtn = norm_text txt
      in case is_dup_scan txtn bb uniq of
           Inl e \<Rightarrow> Inl e
         | Inr is_dup \<Rightarrow>
             if \<not> is_dup
             then dedup_loop ls (uniq @ [\<lparr>u_DetectedText = txt, u_Confidence = Confidence l,
                                           u_Box = \<lparr>Left = Left bb, Top = Top bb,
                                                    Width = Width bb, Height = Height bb\<rparr>\<rparr>])
             else dedup_loop ls uniq)"

definition built :: "detection \<Rightarrow> detection" where
  "built l = \<lparr>Type = None, DetectedText = DetectedText l, Confidence = Confidence l,
              BoundingBox = \<lparr>Left = Left (BoundingBox l), Top = Top (BoundingBox l),
                             Width = Width (BoundingBox l), Height = Height (BoundingBox l)\<rparr>\<rparr>"

definition detect_text_lines_by_s3 ::
  "float_ops \<Rightarrow> detection list \<Rightarrow> real \<Rightarrow> py_error + uniq_line list" where
  "detect_text_lines_by_s3 ops dets min_conf =
     (let lines = filter (\<lambda>d. Type d = Some ''LINE'' \<and> min_conf \<le> Confidence d) dets
      in if lines = []
         then (let words = filter (\<lambda>d. Type d = Some ''WORD'' \<and> min_conf \<le> Confidence d) dets
               in case snd (group_words_into_lines ops words) of
                    Inl e \<Rightarrow> Inl e
                  | Inr grouped \<Rightarrow> dedup_loop (map built grouped) [])
         else dedup_loop lines [])"

text \<open>
  \<open>deduplicate\<close> of the specification is \<open>_detect_text_lines_by_s3\<close> on line-level
  detections. \<open>LineDetection\<close> values are \<open>uniq_line\<close> records; \<open>as_line\<close> is the detection
  of type \<open>LINE\<close> with the same text, confidence and box. Line-level detections reach the
  grouping with an empty list of words only, so the arithmetic of the grouping plays no part.
\<close>

definition as_line :: "uniq_line \<Rightarrow> detection" where
  "as_line u = \<lparr>Type = Some ''LINE'', DetectedText = u_DetectedText u,
                Confidence = u_Confidence u, BoundingBox = u_Box u\<rparr>"

definition deduplicate :: "uniq_line list \<Rightarrow> real \<Rightarrow> py_error + uniq_line list" where
  "deduplicate ls min_conf = detect_text_lines_by_s3 exact_ops (map as_line ls) min_conf"

text \<open>
  The duplicate predicate in the words of the specification. The normalised text: the
  words of the text (the maximal runs of characters that are not whitespace), joined by
  single spaces, in lower case. The IoU: the area of the intersection of the boxes over the
  area of their union plus \<open>1e-9\<close>, and 0 when the intersection has no area; the
  intersection is the product of the overlaps of the two boxes along each axis. Two lines
  are duplicates when their normalised texts are equal and the IoU of their boxes is above
  0.5.
\<close>

fun tokens :: "string \<Rightarrow> string \<Rightarrow> string list" where
  "tokens cur [] = (if cur = [] then [] else [cur])"
| "tokens cur (c # cs) =
     (if is_space c then (if cur = [] then tokens [] cs else cur # tokens [] cs)
      else tokens (cur @ [c]) cs)"

definition spec_norm :: "string \<Rightarrow> string" where
  "spec_norm s = map lower_char (join_sp (tokens [] s))"

definition spec_overlap :: "real \<Rightarrow> real \<Rightarrow> real \<Rightarrow> real \<Rightarrow> real" where
  "spec_overlap lo1 len1 lo2 len2 =
     (if 0 < len1 \<and> 0 < len2 \<and> lo1 < lo2 + len2 \<and> lo2 < lo1 + len1
      then min (lo1 + len1) (lo2 + len2) - max lo1 lo2
      else 0)"

definition spec_intersection :: "bbox \<Rightarrow> bbox \<Rightarrow> real" where
  "spec_intersection a b =
     spec_overlap (Left a) (Width a) (Left b) (Width b)
       * spec_overlap (Top a) (Height a) (Top b) (Height b)"

definition spec_iou :: "bbox \<Rightarrow> bbox \<Rightarrow> real" where
  "spec_iou a b =
     (if spec_intersection a b = 0 then 0
      else spec_intersection a b
             / (Width a * Height a + Width b * Height b - spec_intersection a b + 1 / 10 ^ 9))"

definition duplicate :: "uniq_line \<Rightarrow> uniq_line \<Rightarrow> bool" where
  "duplicate a b =
     (spec_norm (u_DetectedText a) = spec_norm (u_DetectedText b) \<and>
      1 / 2 < spec_iou (u_Box a) (u_Box b))"

text \<open>
  The scan of the specification: an accumulator of accepted lines; each candidate, in input
  order, is discarded when some accepted line is its duplicate, and appended otherwise.
\<close>

fun dedup_spec :: "uniq_line list \<Rightarrow> uniq_line list \<Rightarrow> uniq_line list" where
  "dedup_spec acc [] = acc"
| "dedup_spec acc (c # cs) =
     (if \<exists>k\<in>set acc. duplicate c k then dedup_spec acc cs else dedup_spec (acc @ [c]) cs)"

text \<open>Five lines for the examples.\<close>

definition line_total :: uniq_line where
  "line_total = \<lparr>u_DetectedText = ''Total: 42'', u_Confidence = 99,
                  u_Box = \<lparr>Left = 0, Top = 0, Width = 1, Height = 1\<rparr>\<rparr>"

definition line_total_near :: uniq_line where
  "line_total_near = \<lparr>u_DetectedText = ''total:   42'', u_Confidence = 98,
                  u_Box = \<lparr>Left = 0, Top = 0, Width = 8 / 10, Height = 1\<rparr>\<rparr>"

definition line_total_far :: uniq_line where
  "line_total_far = \<lparr>u_DetectedText = ''total:   42'', u_Confidence = 98,
                  u_Box = \<lparr>Left = 0, Top = 0, Width = 3 / 10, Height = 1\<rparr>\<rparr>"

definition line_faint :: uniq_line where
  "line_faint = \<lparr>u_DetectedText = ''Subtotal'', u_Confidence = 20,
                  u_Box = \<lparr>Left = 0, Top = 0, Width = 1, Height = 1\<rparr>\<rparr>"

definition line_other :: uniq_line where
  "line_other = \<lparr>u_DetectedText = ''Subtotal: 42'', u_Confidence = 97,
                  u_Box = \<lparr>Left = 0, Top = 0, Width = 1, Height = 1\<rparr>\<rparr>"

text \<open>
  The grouping in the words of the specification, the arithmetic being that of \<open>ops\<close>: the
  vertical centre of a word is top plus half the height; its row bucket is the floor of the
  centre over the band of 0.04; the key of the sort of the argument is the rounded
  hundredfold of the centre, then the left; the words of a bucket, as the code orders them;
  and the line of a list of words: their texts joined by single spaces, the mean of their
  confidences, and the box from the least left and top to the greatest right and bottom.
\<close>

definition spec_centre :: "float_ops \<Rightarrow> detection \<Rightarrow> real" where
  "spec_centre ops w = f_add ops (Top (BoundingBox w)) (f_div ops (Height (BoundingBox w)) 2)"

definition spec_bucket :: "float_ops \<Rightarrow> detection \<Rightarrow> int" where
  "spec_bucket ops w = \<lfloor>f_div ops (spec_centre ops w) (4 / 100)\<rfloor>"


definition tie_key :: "float_ops \<Rightarrow> detection \<Rightarrow> int \<times> int \<times> real" where
  "tie_key ops w =
     (py_int (f_div ops (spec_centre ops w) (4 / 100)),
      py_round (f_mul ops (spec_centre ops w) 100),
      Left (BoundingBox w))"

definition bucket_words :: "float_ops \<Rightarrow> detection list \<Rightarrow> int \<Rightarrow> detection list" where
  "bucket_words ops ws r =
     sort_key (\<lambda>w. Left (BoundingBox w))
       (filter (\<lambda>w. row_of ops w = r) (sort_key (words_sort_key ops) ws))"

definition spec_line :: "float_ops \<Rightarrow> detection list \<Rightarrow> detection" where
  "spec_line ops bws =
     \<lparr>Type = Some ''LINE'',
      DetectedText = join_sp (map DetectedText bws),
      Confidence = f_div ops (py_sum ops (map Confidence bws)) (real (length bws)),
      BoundingBox =
        \<lparr>Left = Min (set (map (\<lambda>w. Left (BoundingBox w)) bws)),
         Top = Min (set (map (\<lambda>w. Top (BoundingBox w)) bws)),
         Width = f_sub ops
                   (Max (set (map (\<lambda>w. f_add ops (Left (BoundingBox w)) (Width (BoundingBox w))) bws)))
                   (Min (set (map (\<lambda>w. Left (BoundingBox w)) bws))),
         Height = f_sub ops
                   (Max (set (map (\<lambda>w. f_add ops (Top (BoundingBox w)) (Height (BoundingBox w))) bws)))
                   (Min (set (map (\<lambda>w. Top (BoundingBox w)) bws)))\<rparr>\<rparr>"

text \<open>Words for the examples.\<close>

definition word_hello :: detection where
  "word_hello = \<lparr>Type = Some ''WORD'', DetectedText = ''Hello'', Confidence = 90,
                  BoundingBox = \<lparr>Left = 0, Top = 10 / 100, Width = 1 / 10, Height = 5 / 100\<rparr>\<rparr>"

definition word_world :: detection where
  "word_world = \<lparr>Type = Some ''WORD'', DetectedText = ''World'', Confidence = 80,
                  BoundingBox = \<lparr>Left = 12 / 100, Top = 11 / 100, Width = 1 / 10, Height = 5 / 100\<rparr>\<rparr>"

definition word_next :: detection where
  "word_next = \<lparr>Type = Some ''WORD'', DetectedText = ''Next'', Confidence = 70,
                 BoundingBox = \<lparr>Left = 0, Top = 50 / 100, Width = 1 / 10, Height = 5 / 100\<rparr>\<rparr>"

definition word_a :: detection where
  "word_a = \<lparr>Type = Some ''WORD'', DetectedText = ''A'', Confidence = 90,
              BoundingBox = \<lparr>Left = 0, Top = 10 / 100, Width = 1 / 10, Height = 5 / 100\<rparr>\<rparr>"

definition word_b :: detection where
  "word_b = \<lparr>Type = Some ''WORD'', DetectedText = ''B'', Confidence = 90,
              BoundingBox = \<lparr>Left = 0, Top = 10 / 100, Width = 1 / 10, Height = 5 / 100\<rparr>\<rparr>"


section \<open>Properties of the quota\<close>

subsection \<open>One attempt\<close>

lemma enforce_quota_active:
  assumes "quota_active cfg"
  shows "enforce_quota cfg None u d ttl st =
     (case stored_cnt st (quota_key u d) of
        None \<Rightarrow> (Inr 1, st(quota_key u d \<mapsto> \<lparr>cnt = Some 1, expires = Some ttl\<rparr>))
      | Some c \<Rightarrow>
          if c < QUOTA_LIMIT cfg
          then (Inr (c + 1), st(quota_key u d \<mapsto> \<lparr>cnt = Some (c + 1), expires = Some ttl\<rparr>))
          else (rejection cfg, st))"
  using assms
  by (auto simp: enforce_quota_def quota_active_def update_item_def quota_key_def Let_def rejection_def
           split: option.splits)

lemma enforce_quota_fault:
  "snd (enforce_quota cfg (Some code) u d ttl st) = st"
  by (auto simp: enforce_quota_def update_item_def Let_def split: option.splits)

lemma enforce_quota_inactive:
  "\<not> quota_active cfg \<Longrightarrow> enforce_quota cfg f u d ttl st = (Inr 0, st)"
  by (auto simp: enforce_quota_def quota_active_def)

lemma enforce_quota_frame:
  "k \<noteq> quota_key u d \<Longrightarrow> snd (enforce_quota cfg f u d ttl st) k = st k"
  by (cases f)
     (auto simp: enforce_quota_def update_item_def Let_def quota_key_def split: option.splits)

lemma within_limitD:
  "within_limit lmt st \<Longrightarrow> st k = Some it \<Longrightarrow> \<exists>c. cnt it = Some c \<and> 1 \<le> c \<and> c \<le> lmt"
  unfolding within_limit_def
  by (erule allE [of _ k]) (auto split: option.splits)

lemma within_limitI:
  "(\<And>k it. st k = Some it \<Longrightarrow> \<exists>c. cnt it = Some c \<and> 1 \<le> c \<and> c \<le> lmt) \<Longrightarrow> within_limit lmt st"
  unfolding within_limit_def
  by (auto split: option.splits) fastforce+

lemma enforce_quota_within:
  assumes "1 \<le> QUOTA_LIMIT cfg" "within_limit (QUOTA_LIMIT cfg) st"
  shows "within_limit (QUOTA_LIMIT cfg) (snd (enforce_quota cfg f u d ttl st))"
proof (cases "quota_active cfg")
  case False
  then show ?thesis using assms by (simp add: enforce_quota_inactive)
next
  case True
  show ?thesis
  proof (cases f)
    case (Some code)
    then show ?thesis using assms by (simp add: enforce_quota_fault)
  next
    case None
    show ?thesis
    proof (rule within_limitI)
      fix k it
      assume h: "snd (enforce_quota cfg f u d ttl st) k = Some it"
      show "\<exists>c. cnt it = Some c \<and> 1 \<le> c \<and> c \<le> QUOTA_LIMIT cfg"
      proof (cases "k = quota_key u d")
        case False
        then have "st k = Some it" using h by (simp add: enforce_quota_frame)
        then show ?thesis using assms(2) by (rule within_limitD [rotated])
      next
        case k: True
        show ?thesis
        proof (cases "st (quota_key u d)")
          case None
          then show ?thesis using h k True assms(1) \<open>f = None\<close>
            by (auto simp: enforce_quota_active stored_cnt_def)
        next
          case (Some it0)
          from within_limitD [OF assms(2) Some] obtain c
            where "cnt it0 = Some c" "1 \<le> c" "c \<le> QUOTA_LIMIT cfg" by blast
          then show ?thesis using h k True Some \<open>f = None\<close>
            by (auto simp: enforce_quota_active stored_cnt_def split: if_splits)
        qed
      qed
    qed
  qed
qed

lemma snd_run_attempts_Cons:
  "snd (run_attempts cfg (a # as) st)
     = snd (run_attempts cfg as (snd (enforce_quota cfg (a_fault a) (a_user a) (a_day a) (a_ttl a) st)))"
  by (simp split: prod.splits)

lemma fst_run_attempts_Cons:
  "fst (run_attempts cfg (a # as) st)
     = fst (enforce_quota cfg (a_fault a) (a_user a) (a_day a) (a_ttl a) st)
       # fst (run_attempts cfg as (snd (enforce_quota cfg (a_fault a) (a_user a) (a_day a) (a_ttl a) st)))"
  by (simp split: prod.splits)

lemma run_attempts_within:
  "1 \<le> QUOTA_LIMIT cfg \<Longrightarrow> within_limit (QUOTA_LIMIT cfg) st \<Longrightarrow>
   within_limit (QUOTA_LIMIT cfg) (snd (run_attempts cfg as st))"
proof (induction as arbitrary: st)
  case Nil
  then show ?case by simp
next
  case (Cons a as)
  have "within_limit (QUOTA_LIMIT cfg) (snd (enforce_quota cfg (a_fault a) (a_user a) (a_day a) (a_ttl a) st))"
    using Cons.prems by (rule enforce_quota_within)
  from Cons.IH [OF Cons.prems(1) this] show ?case
    by (simp only: snd_run_attempts_Cons)
qed

lemma run_attempts_untouched:
  "k \<notin> attempt_key ` set as \<Longrightarrow> snd (run_attempts cfg as st) k = st k"
proof (induction as arbitrary: st)
  case Nil
  then show ?case by simp
next
  case (Cons a as)
  have "k \<noteq> quota_key (a_user a) (a_day a)" using Cons.prems by (auto simp: attempt_key_def)
  then have e: "snd (enforce_quota cfg (a_fault a) (a_user a) (a_day a) (a_ttl a) st) k = st k"
    by (rule enforce_quota_frame)
  have "k \<notin> attempt_key ` set as" using Cons.prems by auto
  then have ih: "snd (run_attempts cfg as st') k = st' k" for st'
    by (rule Cons.IH)
  show ?case unfolding snd_run_attempts_Cons by (simp add: ih e)
qed

lemma within_limit_empty: "within_limit lmt empty_store"
  by (simp add: within_limit_def empty_store_def)

lemma within_limit_count: "within_limit lmt st \<Longrightarrow> 1 \<le> lmt \<Longrightarrow> count_of st k \<le> lmt"
  by (cases "st k") (auto simp: count_of_def stored_cnt_def dest: within_limitD)

lemma within_limit_stored:
  "within_limit lmt st \<Longrightarrow> stored_cnt st k = Some c \<Longrightarrow> 1 \<le> c \<and> c \<le> lmt"
  by (cases "st k") (auto simp: stored_cnt_def dest: within_limitD)

lemma step_next_state:
  assumes "quota_active cfg" "1 \<le> QUOTA_LIMIT cfg" "within_limit (QUOTA_LIMIT cfg) st"
  shows "state_of (QUOTA_LIMIT cfg) (snd (enforce_quota cfg None u d ttl st)) (quota_key u d)
         = next_state (QUOTA_LIMIT cfg) (state_of (QUOTA_LIMIT cfg) st (quota_key u d))"
proof (cases "stored_cnt st (quota_key u d)")
  case None
  then show ?thesis using assms(1,2)
    by (simp add: enforce_quota_active state_of_def stored_cnt_def)
next
  case (Some c)
  with within_limit_stored [OF assms(3) Some] show ?thesis using assms(1,2)
    by (auto simp add: enforce_quota_active state_of_def stored_cnt_def)
qed

lemma step_saturated:
  assumes "quota_active cfg" "1 \<le> QUOTA_LIMIT cfg" "within_limit (QUOTA_LIMIT cfg) st"
     "state_of (QUOTA_LIMIT cfg) st (quota_key u d) = SATURATED"
  shows "count_of st (quota_key u d) = QUOTA_LIMIT cfg
       \<and> is_QuotaExceeded (fst (enforce_quota cfg None u d ttl st))
       \<and> snd (enforce_quota cfg None u d ttl st) = st"
proof (cases "stored_cnt st (quota_key u d)")
  case None
  then show ?thesis using assms(4) by (simp add: state_of_def)
next
  case (Some c)
  with within_limit_stored [OF assms(3) Some] assms(4) show ?thesis using assms(1,2)
    by (auto simp add: enforce_quota_active state_of_def count_of_def is_QuotaExceeded_def rejection_def
          split: if_splits)
qed

text \<open>
  Where the code keeps the rule of the specification: with the quota feature on, and either
  a limit of at least 1 or a count already stored for the key, an attempt that the store
  answers succeeds exactly when the count before it is below the limit (a missing record
  counting as 0); it then returns and stores that count plus one; and at or above the limit
  it is rejected and the store is as before.
\<close>

lemma enforce_quota_below_limit_iff:
  assumes "quota_active cfg"
    and "1 \<le> QUOTA_LIMIT cfg \<or> stored_cnt st (quota_key u d) \<noteq> None"
  shows "(is_success (fst (enforce_quota cfg None u d ttl st))
            \<longleftrightarrow> count_of st (quota_key u d) < QUOTA_LIMIT cfg)
       \<and> (count_of st (quota_key u d) < QUOTA_LIMIT cfg \<longrightarrow>
            fst (enforce_quota cfg None u d ttl st) = Inr (count_of st (quota_key u d) + 1)
          \<and> count_of (snd (enforce_quota cfg None u d ttl st)) (quota_key u d)
              = count_of st (quota_key u d) + 1)
       \<and> (QUOTA_LIMIT cfg \<le> count_of st (quota_key u d) \<longrightarrow>
            is_QuotaExceeded (fst (enforce_quota cfg None u d ttl st))
          \<and> snd (enforce_quota cfg None u d ttl st) = st)"
  using assms
  by (auto simp: enforce_quota_active count_of_def is_success_def is_QuotaExceeded_def
        rejection_def stored_cnt_def split: option.splits)

text \<open>
  Claim C1 fails on the code at \<open>QUOTA_LIMIT = 0\<close>, for a key without a record. The count
  before the attempt is 0, which is not below the limit, so the claim has the attempt
  rejected; the code accepts it and returns 1, because the condition of the write,
  \<open>attribute_not_exists(cnt) OR cnt < :lim\<close>, lets a key without \<open>cnt\<close> through whatever the
  limit is. The same attempt on a record that holds the count 0 is rejected, as the claim
  says.
\<close>

theorem enforce_quota_limit_zero_first_attempt:
  "fst (enforce_quota (quota_on 0) None ''alice'' ''2024-05-01'' 1714608000 empty_store) = Inr 1
   \<and> \<not> count_of empty_store (quota_key ''alice'' ''2024-05-01'') < QUOTA_LIMIT (quota_on 0)
   \<and> is_QuotaExceeded
        (fst (enforce_quota (quota_on 0) None ''alice'' ''2024-05-01'' 1714608000
               (empty_store(quota_key ''alice'' ''2024-05-01''
                              \<mapsto> \<lparr>cnt = Some 0, expires = Some 1714608000\<rparr>))))"
  by (simp add: enforce_quota_def quota_on_def update_item_def stored_cnt_def empty_store_def
        count_of_def quota_key_def Let_def is_QuotaExceeded_def)

text \<open>So at limit 0 the first attempt of a day is a success.\<close>

theorem enforce_quota_limit_zero_first_attempt_witness:
  "is_success (fst (enforce_quota (quota_on 0) None ''alice'' ''2024-05-01'' 1714608000 empty_store))"
  using enforce_quota_limit_zero_first_attempt by (simp add: is_success_def)

subsection \<open>Histories and the state machine\<close>

text \<open>
  Where the code keeps the invariant of the specification: with the quota feature on and a
  limit of at least 1, in every store reached from the empty table by a history of attempts
  (on any keys, answered or failed by the backend), no stored count exceeds the limit; one
  more answered attempt on a key moves the key as \<open>next_state\<close> says; a saturated key holds
  exactly the limit, and an attempt on it is rejected and changes nothing; and a key that the
  history never attempted, such as the same subject on another day, is absent and its first
  attempt returns 1.
\<close>

lemma quota_histories_within_limit:
  assumes "quota_active cfg" and "1 \<le> QUOTA_LIMIT cfg"
    and "st = snd (run_attempts cfg as empty_store)"
  shows "(\<forall>k. count_of st k \<le> QUOTA_LIMIT cfg)
       \<and> (\<forall>u d ttl.
            state_of (QUOTA_LIMIT cfg) (snd (enforce_quota cfg None u d ttl st)) (quota_key u d)
              = next_state (QUOTA_LIMIT cfg) (state_of (QUOTA_LIMIT cfg) st (quota_key u d))
          \<and> (state_of (QUOTA_LIMIT cfg) st (quota_key u d) = SATURATED \<longrightarrow>
               count_of st (quota_key u d) = QUOTA_LIMIT cfg
             \<and> is_QuotaExceeded (fst (enforce_quota cfg None u d ttl st))
             \<and> snd (enforce_quota cfg None u d ttl st) = st)
          \<and> (quota_key u d \<notin> attempt_key ` set as \<longrightarrow>
               state_of (QUOTA_LIMIT cfg) st (quota_key u d) = ABSENT
             \<and> fst (enforce_quota cfg None u d ttl st) = Inr 1))"
proof -
  have w: "within_limit (QUOTA_LIMIT cfg) st"
    unfolding assms(3) using assms(2) within_limit_empty by (rule run_attempts_within)
  have 1: "\<forall>k. count_of st k \<le> QUOTA_LIMIT cfg"
    using w assms(2) by (simp add: within_limit_count)
  have 2: "state_of (QUOTA_LIMIT cfg) (snd (enforce_quota cfg None u d ttl st)) (quota_key u d)
              = next_state (QUOTA_LIMIT cfg) (state_of (QUOTA_LIMIT cfg) st (quota_key u d))" for u d ttl
    using assms(1,2) w by (rule step_next_state)
  have 3: "state_of (QUOTA_LIMIT cfg) st (quota_key u d) = SATURATED \<longrightarrow>
               count_of st (quota_key u d) = QUOTA_LIMIT cfg
             \<and> is_QuotaExceeded (fst (enforce_quota cfg None u d ttl st))
             \<and> snd (enforce_quota cfg None u d ttl st) = st" for u d ttl
    using step_saturated [OF assms(1,2) w] by blast
  have 4: "quota_key u d \<notin> attempt_key ` set as \<longrightarrow>
               state_of (QUOTA_LIMIT cfg) st (quota_key u d) = ABSENT
             \<and> fst (enforce_quota cfg None u d ttl st) = Inr 1" for u d ttl
  proof
    assume "quota_key u d \<notin> attempt_key ` set as"
    then have "st (quota_key u d) = None"
      unfolding assms(3) by (simp add: run_attempts_untouched empty_store_def)
    then show "state_of (QUOTA_LIMIT cfg) st (quota_key u d) = ABSENT
             \<and> fst (enforce_quota cfg None u d ttl st) = Inr 1"
      using assms(1) by (simp add: state_of_def stored_cnt_def enforce_quota_active)
  qed
  show ?thesis using 1 2 3 4 by blast
qed

text \<open>
  Claim C2 fails on the code at \<open>QUOTA_LIMIT = 0\<close>: from the empty table, the first attempt
  on a key is accepted and stores the count 1, which exceeds the limit 0.
\<close>

theorem quota_limit_zero_count_exceeds_limit:
  "QUOTA_LIMIT (quota_on 0)
     < count_of (snd (enforce_quota (quota_on 0) None ''alice'' ''2024-05-01'' 1714608000 empty_store))
         (quota_key ''alice'' ''2024-05-01'')"
  by (simp add: enforce_quota_def quota_on_def update_item_def stored_cnt_def empty_store_def
        count_of_def quota_key_def Let_def)

text \<open>So the bound of the claim fails in a reachable store.\<close>

theorem quota_limit_zero_count_exceeds_limit_witness:
  "\<not> count_of (snd (enforce_quota (quota_on 0) None ''alice'' ''2024-05-01'' 1714608000 empty_store))
         (quota_key ''alice'' ''2024-05-01'') \<le> QUOTA_LIMIT (quota_on 0)"
  using quota_limit_zero_count_exceeds_limit by simp

subsection \<open>Attempts racing on one key\<close>

lemma results_on_Cons:
  "results_on k (a # as) (fst (run_attempts cfg (a # as) st))
    = (if attempt_key a = k
       then [fst (enforce_quota cfg (a_fault a) (a_user a) (a_day a) (a_ttl a) st)] else [])
      @ results_on k as (fst (run_attempts cfg as
           (snd (enforce_quota cfg (a_fault a) (a_user a) (a_day a) (a_ttl a) st))))"
  by (simp add: fst_run_attempts_Cons del: run_attempts.simps)

lemma count_of_frame:
  "k \<noteq> quota_key u d \<Longrightarrow> count_of (snd (enforce_quota cfg f u d ttl st)) k = count_of st k"
  by (simp add: count_of_def stored_cnt_def enforce_quota_frame)

lemma run_on_key:
  assumes "quota_active cfg" and "1 \<le> QUOTA_LIMIT cfg"
  shows "\<forall>a\<in>set as. attempt_key a = k \<longrightarrow> a_fault a = None \<Longrightarrow>
         count_of st k \<le> QUOTA_LIMIT cfg \<Longrightarrow> 0 \<le> count_of st k \<Longrightarrow>
         results_on k as (fst (run_attempts cfg as st))
           = map Inr [count_of st k + 1 ..
                      min (count_of st k + int (length (filter (\<lambda>a. attempt_key a = k) as))) (QUOTA_LIMIT cfg)]
             @ replicate (length (filter (\<lambda>a. attempt_key a = k) as)
                            - nat (QUOTA_LIMIT cfg - count_of st k)) (rejection cfg)
       \<and> count_of (snd (run_attempts cfg as st)) k
           = min (count_of st k + int (length (filter (\<lambda>a. attempt_key a = k) as))) (QUOTA_LIMIT cfg)"
proof (induction as arbitrary: st)
  case Nil
  then show ?case by simp
next
  case (Cons a as)
  let ?st1 = "snd (enforce_quota cfg (a_fault a) (a_user a) (a_day a) (a_ttl a) st)"
  let ?n = "length (filter (\<lambda>a. attempt_key a = k) as)"
  let ?c = "count_of st k"
  let ?L = "QUOTA_LIMIT cfg"
  have prem: "\<forall>a\<in>set as. attempt_key a = k \<longrightarrow> a_fault a = None" using Cons.prems(1) by simp
  show ?case
  proof (cases "attempt_key a = k")
    case False
    then have c1: "count_of ?st1 k = ?c"
      by (simp add: count_of_frame attempt_key_def)
    from Cons.IH [OF prem, of ?st1] Cons.prems(2,3) c1 False
    show ?thesis unfolding results_on_Cons snd_run_attempts_Cons by simp
  next
    case True
    then have f: "a_fault a = None" using Cons.prems(1) by simp
    have kq: "quota_key (a_user a) (a_day a) = k" using True by (simp add: attempt_key_def)
    show ?thesis
    proof (cases "?c < ?L")
      case lt: True
      have r: "fst (enforce_quota cfg (a_fault a) (a_user a) (a_day a) (a_ttl a) st) = Inr (?c + 1)"
        and c1: "count_of ?st1 k = ?c + 1"
        using lt Cons.prems(3) assms kq f
        by (auto simp: enforce_quota_active count_of_def stored_cnt_def split: option.splits)
      have u: "[?c + 1 .. min (?c + int (Suc ?n)) ?L] = (?c + 1) # [?c + 1 + 1 .. min (?c + 1 + int ?n) ?L]"
      proof -
        have "?c + 1 \<le> min (?c + int (Suc ?n)) ?L" using lt by simp
        then have "[?c + 1 .. min (?c + int (Suc ?n)) ?L] = (?c + 1) # [?c + 1 + 1 .. min (?c + int (Suc ?n)) ?L]"
          by (rule upto_rec1)
        moreover have "?c + int (Suc ?n) = ?c + 1 + int ?n" by simp
        ultimately show ?thesis by (simp only:)
      qed
      have m: "Suc ?n - nat (?L - ?c) = ?n - nat (?L - (?c + 1))"
        using lt by linarith
      from Cons.IH [OF prem, of ?st1] c1 lt Cons.prems(3)
      show ?thesis unfolding results_on_Cons snd_run_attempts_Cons
        using True r u m by (simp add: add.commute add.left_commute min_def)
    next
      case ge: False
      then have eq: "?c = ?L" using Cons.prems(2) by simp
      have r: "fst (enforce_quota cfg (a_fault a) (a_user a) (a_day a) (a_ttl a) st) = rejection cfg"
        and s1: "?st1 = st"
        using ge assms kq f eq
        by (auto simp: enforce_quota_active count_of_def stored_cnt_def split: option.splits)
      from Cons.IH [OF prem, of ?st1] Cons.prems(2,3) s1 eq
      show ?thesis unfolding results_on_Cons snd_run_attempts_Cons
        using True r by (simp add: min_def Suc_diff_le replicate_app_Cons_same)
    qed
  qed
qed

lemma is_success_simps:
  "is_success (Inr n)" "\<not> is_success (rejection cfg)"
  "\<not> is_QuotaExceeded (Inr n)" "is_QuotaExceeded (rejection cfg)"
  by (simp_all add: is_success_def is_QuotaExceeded_def rejection_def)

lemma filter_map_Inr:
  "filter is_success (map Inr xs) = map Inr xs" "filter is_QuotaExceeded (map Inr xs) = []"
  by (induction xs) (simp_all add: is_success_simps)

lemma count_of_empty: "count_of empty_store k = 0"
  by (simp add: count_of_def stored_cnt_def empty_store_def)

text \<open>
  Every attempt is one conditional write, and a history lists the writes in the order in
  which the store applied them. With the quota feature on and a limit \<open>L\<close> of at least 1,
  for every history from the empty table in which \<open>N \<ge> L\<close> attempts are on the key \<open>k\<close> and
  the store answers them: exactly \<open>L\<close> of these attempts succeed, the other \<open>N - L\<close> are
  rejected, the successes return the counts 1 to \<open>L\<close>, each once, and the count stored in
  the end is \<open>L\<close>.
\<close>

lemma quota_histories_exactly_limit:
  assumes "quota_active cfg" and "1 \<le> QUOTA_LIMIT cfg"
    and "\<forall>a\<in>set as. attempt_key a = k \<longrightarrow> a_fault a = None"
    and "QUOTA_LIMIT cfg \<le> int (length (filter (\<lambda>a. attempt_key a = k) as))"
  shows "length (filter is_success (results_on k as (fst (run_attempts cfg as empty_store))))
           = nat (QUOTA_LIMIT cfg)
       \<and> length (filter is_QuotaExceeded (results_on k as (fst (run_attempts cfg as empty_store))))
           = length (filter (\<lambda>a. attempt_key a = k) as) - nat (QUOTA_LIMIT cfg)
       \<and> length (results_on k as (fst (run_attempts cfg as empty_store)))
           = length (filter (\<lambda>a. attempt_key a = k) as)
       \<and> filter is_success (results_on k as (fst (run_attempts cfg as empty_store)))
           = map Inr [1 .. QUOTA_LIMIT cfg]
       \<and> count_of (snd (run_attempts cfg as empty_store)) k = QUOTA_LIMIT cfg"
proof -
  let ?n = "length (filter (\<lambda>a. attempt_key a = k) as)"
  have m: "min (int ?n) (QUOTA_LIMIT cfg) = QUOTA_LIMIT cfg" using assms(4) by simp
  have "results_on k as (fst (run_attempts cfg as empty_store))
           = map Inr [1 .. QUOTA_LIMIT cfg] @ replicate (?n - nat (QUOTA_LIMIT cfg)) (rejection cfg)
       \<and> count_of (snd (run_attempts cfg as empty_store)) k = QUOTA_LIMIT cfg"
    using run_on_key [OF assms(1,2,3), of empty_store] assms(2) m
    by (simp add: count_of_empty)
  then show ?thesis using assms(2,4)
    by (simp add: filter_map_Inr is_success_simps)
qed

text \<open>
  Claim C3 fails on the code at \<open>L = 0\<close> with \<open>N = 1\<close>: the one attempt on the key succeeds,
  where the claim has no success, and the count stored in the end is 1, not 0.
\<close>

theorem quota_limit_zero_one_success:
  "fst (run_attempts (quota_on 0)
          [\<lparr>a_fault = None, a_user = ''alice'', a_day = ''2024-05-01'', a_ttl = 1714608000\<rparr>]
          empty_store) = [Inr 1]
   \<and> count_of (snd (run_attempts (quota_on 0)
          [\<lparr>a_fault = None, a_user = ''alice'', a_day = ''2024-05-01'', a_ttl = 1714608000\<rparr>]
          empty_store)) (quota_key ''alice'' ''2024-05-01'') = 1
   \<and> QUOTA_LIMIT (quota_on 0) = 0"
  by (simp add: enforce_quota_def quota_on_def update_item_def stored_cnt_def empty_store_def
        count_of_def quota_key_def Let_def)

text \<open>So one attempt succeeds at limit 0.\<close>

theorem quota_limit_zero_one_success_witness:
  "length (filter is_success (fst (run_attempts (quota_on 0)
          [\<lparr>a_fault = None, a_user = ''alice'', a_day = ''2024-05-01'', a_ttl = 1714608000\<rparr>]
          empty_store))) = 1"
  using quota_limit_zero_one_success by (simp add: is_success_def)


section \<open>Properties of \<open>_iou\<close>\<close>

lemma inter_area_alt: "inter_area a b = iw_of a b * ih_of a b"
  by (simp add: inter_area_def iw_of_def ih_of_def Let_def)

lemma iou_denominator_alt:
  "iou_denominator a b = Width a * Height a + Width b * Height b - inter_area a b + eps"
  by (simp add: iou_denominator_def Let_def)

lemma iw_of_commute: "iw_of a b = iw_of b a"
  by (simp add: iw_of_def min.commute max.commute)

lemma ih_of_commute: "ih_of a b = ih_of b a"
  by (simp add: ih_of_def min.commute max.commute)

lemma inter_area_commute: "inter_area a b = inter_area b a"
  by (simp add: inter_area_alt iw_of_commute [of a b] ih_of_commute [of a b])

lemma iou_denominator_commute: "iou_denominator a b = iou_denominator b a"
  by (simp add: iou_denominator_alt inter_area_commute [of a b])

lemma iou_commute: "iou a b = iou b a"
  by (simp add: iou_def Let_def inter_area_commute [of a b] iou_denominator_commute [of a b])

lemma eps_pos: "0 < eps"
  by (simp add: eps_def)

lemma iw_of_bounds: "0 \<le> iw_of a b" "0 < iw_of a b \<Longrightarrow> iw_of a b \<le> Width a"
  by (auto simp: iw_of_def)

lemma ih_of_bounds: "0 \<le> ih_of a b" "0 < ih_of a b \<Longrightarrow> ih_of a b \<le> Height a"
  by (auto simp: ih_of_def)

lemma inter_area_nonneg: "0 \<le> inter_area a b"
  by (simp add: inter_area_alt iw_of_bounds ih_of_bounds)

lemma inter_area_le_left:
  assumes "inter_area a b \<noteq> 0"
  shows "inter_area a b \<le> Width a * Height a"
proof -
  have w: "0 < iw_of a b" and h: "0 < ih_of a b"
    using assms iw_of_bounds(1) [of a b] ih_of_bounds(1) [of a b]
    by (auto simp: inter_area_alt less_le)
  have "iw_of a b * ih_of a b \<le> Width a * Height a"
    using iw_of_bounds(2) [OF w] ih_of_bounds(2) [OF h] w h
    by (intro mult_mono) auto
  then show ?thesis by (simp add: inter_area_alt)
qed

lemma inter_area_le_right:
  assumes "inter_area a b \<noteq> 0"
  shows "inter_area a b \<le> Width b * Height b"
  using inter_area_le_left [of b a] assms by (simp add: inter_area_commute [of a b])

lemma iou_denominator_bound:
  assumes "inter_area a b \<noteq> 0"
  shows "inter_area a b + eps \<le> iou_denominator a b"
  using inter_area_le_left [OF assms] inter_area_le_right [OF assms]
  by (simp add: iou_denominator_alt)

lemma iou_value:
  "iou a b = Inr (if inter_area a b = 0 then 0 else inter_area a b / iou_denominator a b)"
proof (cases "inter_area a b = 0")
  case True
  then show ?thesis by (simp add: iou_def)
next
  case False
  from iou_denominator_bound [OF False] inter_area_nonneg [of a b] eps_pos
  have "iou_denominator a b \<noteq> 0" by linarith
  then show ?thesis using False by (simp add: iou_def py_truediv_def)
qed

lemma iou_range:
  "\<exists>v. iou a b = Inr v \<and> 0 \<le> v \<and> v < 1"
proof (cases "inter_area a b = 0")
  case True
  then show ?thesis by (simp add: iou_value)
next
  case False
  have p: "0 < inter_area a b" using False inter_area_nonneg [of a b] by simp
  have d: "inter_area a b < iou_denominator a b"
    using iou_denominator_bound [OF False] eps_pos by linarith
  have "0 \<le> inter_area a b / iou_denominator a b" using p d by simp
  moreover have "inter_area a b / iou_denominator a b < 1" using p d by simp
  ultimately show ?thesis using False by (simp add: iou_value)
qed

lemma inter_area_self:
  "0 \<le> Width a \<Longrightarrow> 0 \<le> Height a \<Longrightarrow> inter_area a a = Width a * Height a"
  by (simp add: inter_area_alt iw_of_def ih_of_def)

lemma inter_area_degenerate:
  assumes "Width a * Height a = 0"
  shows "inter_area a b = 0"
proof (rule ccontr)
  assume n: "inter_area a b \<noteq> 0"
  from inter_area_le_left [OF n] assms have "inter_area a b \<le> 0" by simp
  with inter_area_nonneg [of a b] n show False by simp
qed

text \<open>
  Claim C8, as the code has it. For all boxes \<open>A\<close> and \<open>B\<close>: \<open>iou(A, B) = iou(B, A)\<close>; the
  result is at least 0 and strictly below 1; for a box \<open>A\<close> of positive width and height,
  \<open>iou(A, A)\<close> is \<open>area / (area + 1e-9)\<close>, which the epsilon of the denominator keeps below
  1; and for two boxes whose intersection has zero area, the result is 0.
\<close>

theorem iou_symmetric_bounded:
  "iou a b = iou b a
   \<and> (\<exists>v. iou a b = Inr v \<and> 0 \<le> v \<and> v < 1)
   \<and> (0 < Width a \<and> 0 < Height a \<longrightarrow>
        iou a a = Inr (Width a * Height a / (Width a * Height a + eps)))
   \<and> (inter_area a b = 0 \<longrightarrow> iou a b = Inr 0)"
proof -
  have "iou a a = Inr (Width a * Height a / (Width a * Height a + eps))"
    if "0 < Width a" "0 < Height a"
    using that by (simp add: iou_value inter_area_self iou_denominator_alt)
  then show ?thesis using iou_commute [of a b] iou_range [of a b]
    by (simp add: iou_value)
qed

text \<open>
  Claim C8 as stated fails on the unit square: \<open>iou(A, A)\<close> is \<open>1 / (1 + 1e-9)\<close>, not 1.
\<close>

theorem iou_unit_box_self_below_one:
  "iou unit_box unit_box = Inr (1000000000 / 1000000001) \<and> iou unit_box unit_box \<noteq> Inr 1
   \<and> 0 < Width unit_box * Height unit_box"
  by (simp add: iou_value inter_area_alt iw_of_def ih_of_def iou_denominator_alt unit_box_def eps_def)

text \<open>The theorem on the unit square, against itself and against a box apart from it.\<close>

theorem iou_symmetric_bounded_witness:
  "0 < Width unit_box \<and> 0 < Height unit_box
   \<and> iou unit_box unit_box = Inr (1000000000 / 1000000001)
   \<and> inter_area unit_box far_box = 0
   \<and> iou unit_box far_box = Inr 0 \<and> iou far_box unit_box = Inr 0"
proof -
  have a: "0 < Width unit_box \<and> 0 < Height unit_box" by (simp add: unit_box_def)
  have b: "inter_area unit_box far_box = 0"
    by (simp add: inter_area_def unit_box_def far_box_def Let_def)
  have c: "Width unit_box * Height unit_box / (Width unit_box * Height unit_box + eps)
            = 1000000000 / 1000000001"
    by (simp add: unit_box_def eps_def)
  have d: "iou unit_box far_box = iou far_box unit_box"
    using iou_symmetric_bounded [of unit_box far_box] by (rule conjunct1)
  have e: "iou unit_box far_box = Inr 0"
    using iou_symmetric_bounded [of unit_box far_box] b by blast
  have e': "iou far_box unit_box = Inr 0"
    using e by (simp only: d [symmetric])
  have f: "iou unit_box unit_box = Inr (1000000000 / 1000000001)"
    using iou_symmetric_bounded [of unit_box unit_box] a c by simp
  show ?thesis
    using a b e e' f by blast
qed

text \<open>
  Claim C9. \<open>_iou\<close> returns a number for every pair of boxes, and never raises
  \<open>ZeroDivisionError\<close>: when the intersection has zero area it returns 0 from the test
  before the division; when the division is made, the denominator is at least the epsilon
  \<open>1e-9\<close>, and the result is the quotient; and when both boxes have zero area the result
  is 0.
\<close>

theorem iou_total_no_zero_division:
  "(\<exists>v. iou a b = Inr v)
   \<and> (inter_area a b = 0 \<longrightarrow> iou a b = Inr 0)
   \<and> (inter_area a b \<noteq> 0 \<longrightarrow>
        eps \<le> iou_denominator a b
      \<and> iou a b = py_truediv (inter_area a b) (iou_denominator a b)
      \<and> iou a b = Inr (inter_area a b / iou_denominator a b))
   \<and> (Width a * Height a = 0 \<and> Width b * Height b = 0 \<longrightarrow> iou a b = Inr 0)"
proof -
  have 1: "eps \<le> iou_denominator a b" if "inter_area a b \<noteq> 0"
    using iou_denominator_bound [OF that] inter_area_nonneg [of a b] by linarith
  have 2: "iou a b = py_truediv (inter_area a b) (iou_denominator a b)" if "inter_area a b \<noteq> 0"
    using that by (simp add: iou_def)
  have 3: "iou a b = Inr 0" if "Width a * Height a = 0"
    using inter_area_degenerate [OF that, of b] by (simp add: iou_value)
  show ?thesis using 1 2 3 by (simp add: iou_value)
qed

text \<open>
  The theorem on boxes apart (no division), on the unit square against itself (a division,
  by more than the epsilon), and on a box of zero area against itself.
\<close>

theorem iou_total_no_zero_division_witness:
  "inter_area unit_box far_box = 0 \<and> iou unit_box far_box = Inr 0
   \<and> inter_area unit_box unit_box \<noteq> 0
   \<and> eps \<le> iou_denominator unit_box unit_box
   \<and> iou unit_box unit_box
       = Inr (inter_area unit_box unit_box / iou_denominator unit_box unit_box)
   \<and> Width point_box * Height point_box = 0
   \<and> iou point_box point_box = Inr 0"
proof -
  have a: "inter_area unit_box far_box = 0"
    by (simp add: inter_area_def unit_box_def far_box_def Let_def)
  have b: "inter_area unit_box unit_box \<noteq> 0"
    by (simp add: inter_area_def unit_box_def Let_def)
  have c: "Width point_box * Height point_box = 0"
    by (simp add: point_box_def)
  have 1: "iou unit_box far_box = Inr 0"
    using iou_total_no_zero_division [of unit_box far_box] a by blast
  have 2: "eps \<le> iou_denominator unit_box unit_box
      \<and> iou unit_box unit_box
          = Inr (inter_area unit_box unit_box / iou_denominator unit_box unit_box)"
    using iou_total_no_zero_division [of unit_box unit_box] b by blast
  have 3: "iou point_box point_box = Inr 0"
    using iou_total_no_zero_division [of point_box point_box] c by blast
  show ?thesis using a b c 1 2 3 by blast
qed


section \<open>Properties of the deduplication\<close>

lemma bbox_rebuild: "\<lparr>Left = Left bb, Top = Top bb, Width = Width bb, Height = Height bb\<rparr> = (bb :: bbox)"
  by simp

subsection \<open>The code's normalisation and IoU are those of the specification\<close>

lemma tokens_nonempty: "cur \<noteq> [] \<Longrightarrow> tokens cur s \<noteq> []"
  by (induction s arbitrary: cur) auto

lemma tokens_skip: "tokens [] s = tokens [] (dropWhile is_space s)"
  by (induction s) auto

lemma join_sp_Cons: "ys \<noteq> [] \<Longrightarrow> join_sp (x # ys) = x @ '' '' @ join_sp ys"
  by (cases ys) simp_all

lemma rstrip_append:
  "\<not> (\<forall>x\<in>set ys. is_space x) \<Longrightarrow>
   rev (dropWhile is_space (rev (xs @ ys))) = xs @ rev (dropWhile is_space (rev ys))"
  by (auto simp: dropWhile_append)

lemma rstrip_spaces:
  "\<forall>x\<in>set ys. is_space x \<Longrightarrow>
   rev (dropWhile is_space (rev (xs @ ys))) = rev (dropWhile is_space (rev xs))"
  by (simp add: dropWhile_append)

lemma rstrip_last:
  "cur \<noteq> [] \<Longrightarrow> \<not> is_space (last cur) \<Longrightarrow> rev (dropWhile is_space (rev cur)) = cur"
  by (cases cur rule: rev_cases) simp_all

lemma rstrip_Cons_nonspace:
  "\<not> is_space e \<Longrightarrow> rev (dropWhile is_space (rev (e # xs))) = e # rev (dropWhile is_space (rev xs))
     \<or> rev (dropWhile is_space (rev (e # xs))) = [e]"
  by (simp add: dropWhile_append)

lemma is_space_blank: "is_space CHR '' ''"
  by (simp add: is_space_def)

lemma join_tokens:
  "(\<forall>cur. cur \<noteq> [] \<longrightarrow> \<not> is_space (last cur) \<longrightarrow>
       join_sp (tokens cur s) = rev (dropWhile is_space (rev (cur @ collapse_ws s))))
   \<and> join_sp (tokens [] s) = rev (dropWhile is_space (rev (dropWhile is_space (collapse_ws s))))"
proof (induction s rule: collapse_ws.induct)
  case 1
  then show ?case by (simp add: rstrip_last)
next
  case (2 c cs)
  show ?case
  proof (cases "is_space c")
    case False
    from 2(2) [OF False]
    have ih: "cur \<noteq> [] \<Longrightarrow> \<not> is_space (last cur) \<Longrightarrow>
        join_sp (tokens cur cs) = rev (dropWhile is_space (rev (cur @ collapse_ws cs)))" for cur
      by blast
    have a: "join_sp (tokens cur (c # cs)) = rev (dropWhile is_space (rev (cur @ collapse_ws (c # cs))))"
      if "cur \<noteq> []" for cur
      using ih [of "cur @ [c]"] False by simp
    have b: "join_sp (tokens [] (c # cs))
        = rev (dropWhile is_space (rev (dropWhile is_space (collapse_ws (c # cs)))))"
      using ih [of "[c]"] False by simp
    show ?thesis using a b by blast
  next
    case True
    let ?d = "dropWhile is_space cs"
    from 2(1) [OF True]
    have ih2: "join_sp (tokens [] ?d)
        = rev (dropWhile is_space (rev (dropWhile is_space (collapse_ws ?d))))"
      by blast
    have b: "join_sp (tokens [] (c # cs))
        = rev (dropWhile is_space (rev (dropWhile is_space (collapse_ws (c # cs)))))"
      using True ih2 tokens_skip [of cs] by (simp add: is_space_blank)
    have a: "join_sp (tokens cur (c # cs)) = rev (dropWhile is_space (rev (cur @ collapse_ws (c # cs))))"
      if cur: "cur \<noteq> []" "\<not> is_space (last cur)" for cur
    proof (cases ?d)
      case Nil
      have "tokens [] cs = tokens [] []" using tokens_skip [of cs] unfolding Nil .
      then have t: "tokens [] cs = []" by simp
      have "collapse_ws (c # cs) = CHR '' '' # collapse_ws ?d" using True by simp
      then have cw: "collapse_ws (c # cs) = '' ''" unfolding Nil by simp
      have sp: "\<forall>x\<in>set '' ''. is_space x" by (simp add: is_space_blank)
      have r: "rev (dropWhile is_space (rev (cur @ '' ''))) = cur"
        using rstrip_spaces [OF sp, of cur] rstrip_last [OF cur] by (simp only:)
      have l: "join_sp (tokens cur (c # cs)) = cur" using True cur(1) t by simp
      show ?thesis unfolding l cw r by (rule refl)
    next
      case (Cons e es)
      then have e: "\<not> is_space e" by (metis hd_dropWhile list.sel(1) list.distinct(1))
      have t: "tokens [] cs \<noteq> []"
        using tokens_skip [of cs] Cons e tokens_nonempty [of "[e]" es] by simp
      have c: "collapse_ws ?d = e # collapse_ws es" using Cons e by simp
      have n: "\<not> (\<forall>x\<in>set (collapse_ws ?d). is_space x)" using c e by auto
      have "join_sp (tokens cur (c # cs)) = cur @ '' '' @ join_sp (tokens [] ?d)"
        using True cur t tokens_skip [of cs] by (simp add: join_sp_Cons)
      also have "\<dots> = (cur @ '' '') @ rev (dropWhile is_space (rev (collapse_ws ?d)))"
        using ih2 c e by simp
      also have "\<dots> = rev (dropWhile is_space (rev ((cur @ '' '') @ collapse_ws ?d)))"
        using rstrip_append [OF n, of "cur @ '' ''"] by simp
      finally show ?thesis using True by simp
    qed
    show ?thesis using a b by blast
  qed
qed

lemma norm_text_spec: "norm_text s = spec_norm s"
  using join_tokens [of s] by (simp add: norm_text_def spec_norm_def strip_def)

lemma spec_overlap_iw: "spec_overlap (Left a) (Width a) (Left b) (Width b) = iw_of a b"
  by (auto simp: spec_overlap_def iw_of_def)

lemma spec_overlap_ih: "spec_overlap (Top a) (Height a) (Top b) (Height b) = ih_of a b"
  by (auto simp: spec_overlap_def ih_of_def)

lemma spec_intersection_inter: "spec_intersection a b = inter_area a b"
  by (simp add: spec_intersection_def inter_area_alt spec_overlap_iw spec_overlap_ih)

lemma iou_spec: "iou a b = Inr (spec_iou a b)"
  by (simp add: iou_value spec_iou_def spec_intersection_inter iou_denominator_alt eps_def)

lemma duplicate_code:
  "duplicate a b \<longleftrightarrow>
     norm_text (u_DetectedText a) = norm_text (u_DetectedText b)
     \<and> (case iou (u_Box a) (u_Box b) of Inr v \<Rightarrow> 1 / 2 < v | Inl e \<Rightarrow> False)"
  by (simp add: duplicate_def norm_text_spec iou_spec)

subsection \<open>The loop\<close>

lemma duplicate_commute: "duplicate a b = duplicate b a"
  by (auto simp: duplicate_code iou_commute [of "u_Box a" "u_Box b"])

lemma is_dup_scan_eq:
  "is_dup_scan (norm_text (u_DetectedText c)) (u_Box c) us = Inr (\<exists>k\<in>set us. duplicate c k)"
proof (induction us)
  case Nil
  then show ?case by simp
next
  case (Cons u us)
  show ?case using Cons by (auto simp: duplicate_code iou_spec)
qed

lemma dedup_loop_eq:
  "dedup_loop (map as_line cs) acc = Inr (dedup_spec acc cs)"
proof (induction cs arbitrary: acc)
  case Nil
  then show ?case by simp
next
  case (Cons c cs)
  have s: "is_dup_scan (norm_text (DetectedText (as_line c))) (BoundingBox (as_line c)) acc
            = Inr (\<exists>k\<in>set acc. duplicate c k)"
    using is_dup_scan_eq [of c acc] by (simp add: as_line_def)
  have u: "\<lparr>u_DetectedText = DetectedText (as_line c), u_Confidence = Confidence (as_line c),
            u_Box = \<lparr>Left = Left (BoundingBox (as_line c)), Top = Top (BoundingBox (as_line c)),
                     Width = Width (BoundingBox (as_line c)),
                     Height = Height (BoundingBox (as_line c))\<rparr>\<rparr> = c"
    by (simp add: as_line_def)
  show ?case using Cons.IH s u by (simp add: Let_def)
qed

lemma deduplicate_eq:
  "deduplicate ls m = Inr (dedup_spec [] (filter (\<lambda>l. m \<le> u_Confidence l) ls))"
proof -
  have f: "filter (\<lambda>d. Type d = Some ''LINE'' \<and> m \<le> Confidence d) (map as_line ls)
            = map as_line (filter (\<lambda>l. m \<le> u_Confidence l) ls)"
    by (induction ls) (simp_all add: as_line_def)
  have w: "filter (\<lambda>d. Type d = Some ''WORD'' \<and> m \<le> Confidence d) (map as_line ls) = []"
    by (induction ls) (simp_all add: as_line_def)
  show ?thesis
  proof (cases "filter (\<lambda>l. m \<le> u_Confidence l) ls = []")
    case True
    then show ?thesis
      by (simp add: deduplicate_def detect_text_lines_by_s3_def f w group_words_into_lines_def)
  next
    case False
    then show ?thesis
      by (simp add: deduplicate_def detect_text_lines_by_s3_def f dedup_loop_eq)
  qed
qed

lemma dedup_spec_append: "\<exists>ys. dedup_spec acc cs = acc @ ys \<and> subseq ys cs"
proof (induction cs arbitrary: acc)
  case Nil
  then show ?case by simp
next
  case (Cons c cs)
  show ?case
  proof (cases "\<exists>k\<in>set acc. duplicate c k")
    case True
    from Cons.IH [of acc] obtain ys where "dedup_spec acc cs = acc @ ys" "subseq ys cs" by blast
    then show ?thesis using True by auto
  next
    case False
    from Cons.IH [of "acc @ [c]"] obtain ys
      where "dedup_spec (acc @ [c]) cs = (acc @ [c]) @ ys" "subseq ys cs" by blast
    then have "dedup_spec acc (c # cs) = acc @ (c # ys) \<and> subseq (c # ys) (c # cs)"
      using False by simp
    then show ?thesis by blast
  qed
qed

lemma dedup_spec_subseq: "subseq (dedup_spec [] cs) cs"
  using dedup_spec_append [of "[]" cs] by auto

lemma dedup_spec_pairwise:
  "sorted_wrt (\<lambda>a b. \<not> duplicate b a) acc \<Longrightarrow> sorted_wrt (\<lambda>a b. \<not> duplicate b a) (dedup_spec acc cs)"
proof (induction cs arbitrary: acc)
  case Nil
  then show ?case by simp
next
  case (Cons c cs)
  show ?case
  proof (cases "\<exists>k\<in>set acc. duplicate c k")
    case True
    then show ?thesis using Cons by simp
  next
    case False
    then have "sorted_wrt (\<lambda>a b. \<not> duplicate b a) (acc @ [c])"
      using Cons.prems by (simp add: sorted_wrt_append)
    from Cons.IH [OF this] show ?thesis using False by simp
  qed
qed

lemma dedup_spec_covers:
  "set acc \<subseteq> set (dedup_spec acc cs)
   \<and> (\<forall>c\<in>set cs. c \<in> set (dedup_spec acc cs) \<or> (\<exists>k\<in>set (dedup_spec acc cs). duplicate c k))"
proof (induction cs arbitrary: acc)
  case Nil
  then show ?case by simp
next
  case (Cons c cs)
  show ?case
  proof (cases "\<exists>k\<in>set acc. duplicate c k")
    case True
    then show ?thesis using Cons.IH [of acc] by auto
  next
    case False
    then show ?thesis using Cons.IH [of "acc @ [c]"] by auto
  qed
qed

lemma dedup_spec_fixed:
  "sorted_wrt (\<lambda>a b. \<not> duplicate b a) (acc @ cs) \<Longrightarrow> dedup_spec acc cs = acc @ cs"
proof (induction cs arbitrary: acc)
  case Nil
  then show ?case by simp
next
  case (Cons c cs)
  have n: "\<not> (\<exists>k\<in>set acc. duplicate c k)"
    using Cons.prems by (auto simp: sorted_wrt_append)
  have "sorted_wrt (\<lambda>a b. \<not> duplicate b a) ((acc @ [c]) @ cs)" using Cons.prems by simp
  from Cons.IH [OF this] n show ?case by simp
qed

text \<open>
  Claim C4. For every list of lines and every \<open>min_confidence\<close>, \<open>deduplicate\<close> returns
  the result of the scan of the specification over the candidates, which are the lines whose
  confidence is not below \<open>min_confidence\<close>, in input order: a candidate is kept exactly
  when no line kept before it is its duplicate. Two lines are duplicates when their texts,
  with whitespace runs collapsed to one space, trimmed and in lower case, are equal and the
  IoU of their boxes is above 0.5; \<open>duplicate\<close> states this in the words of the
  specification, and the code's \<open>_norm_text\<close> and \<open>_iou\<close> compute it. The survivors are a
  subsequence of the candidates (first-seen order), no two survivors are duplicates of each
  other, in either direction, and every candidate is a survivor or the duplicate of one.
\<close>

theorem deduplicate_scan_order_pairwise:
  "deduplicate ls m = Inr (dedup_spec [] (filter (\<lambda>l. m \<le> u_Confidence l) ls))
   \<and> (\<forall>s. norm_text s = spec_norm s)
   \<and> (\<forall>a b. iou a b = Inr (spec_iou a b))
   \<and> subseq (dedup_spec [] (filter (\<lambda>l. m \<le> u_Confidence l) ls))
             (filter (\<lambda>l. m \<le> u_Confidence l) ls)
   \<and> (\<forall>i j. i < j \<longrightarrow> j < length (dedup_spec [] (filter (\<lambda>l. m \<le> u_Confidence l) ls)) \<longrightarrow>
         \<not> duplicate (dedup_spec [] (filter (\<lambda>l. m \<le> u_Confidence l) ls) ! i)
                      (dedup_spec [] (filter (\<lambda>l. m \<le> u_Confidence l) ls) ! j)
       \<and> \<not> duplicate (dedup_spec [] (filter (\<lambda>l. m \<le> u_Confidence l) ls) ! j)
                      (dedup_spec [] (filter (\<lambda>l. m \<le> u_Confidence l) ls) ! i))
   \<and> (\<forall>c\<in>set (filter (\<lambda>l. m \<le> u_Confidence l) ls).
         c \<in> set (dedup_spec [] (filter (\<lambda>l. m \<le> u_Confidence l) ls))
       \<or> (\<exists>k\<in>set (dedup_spec [] (filter (\<lambda>l. m \<le> u_Confidence l) ls)). duplicate c k))"
proof -
  let ?cands = "filter (\<lambda>l. m \<le> u_Confidence l) ls"
  have p: "sorted_wrt (\<lambda>a b. \<not> duplicate b a) (dedup_spec [] ?cands)"
    by (rule dedup_spec_pairwise) simp
  have "\<not> duplicate (dedup_spec [] ?cands ! i) (dedup_spec [] ?cands ! j)
      \<and> \<not> duplicate (dedup_spec [] ?cands ! j) (dedup_spec [] ?cands ! i)"
    if "i < j" "j < length (dedup_spec [] ?cands)" for i j
    using sorted_wrt_nth_less [OF p that] duplicate_commute by blast
  then show ?thesis
    using deduplicate_eq [of ls m] dedup_spec_subseq [of ?cands] dedup_spec_covers [of "[]" ?cands]
      norm_text_spec iou_spec
    by blast
qed

text \<open>
  Claim C5. Deduplication is idempotent: \<open>deduplicate\<close> returns a list, and applied to that
  list (with the same \<open>min_confidence\<close>) it returns it unchanged.
\<close>

theorem deduplicate_idempotent:
  "\<exists>out. deduplicate ls m = Inr out \<and> deduplicate out m = Inr out"
proof -
  let ?cands = "filter (\<lambda>l. m \<le> u_Confidence l) ls"
  let ?out = "dedup_spec [] ?cands"
  have "set ?out \<subseteq> set ?cands"
  proof
    fix x assume "x \<in> set ?out"
    with dedup_spec_subseq [of ?cands] show "x \<in> set ?cands"
      by (rule list_emb_set) simp
  qed
  then have f: "filter (\<lambda>l. m \<le> u_Confidence l) ?out = ?out"
    by (auto simp: filter_id_conv)
  have p: "sorted_wrt (\<lambda>a b. \<not> duplicate b a) ?out"
    by (rule dedup_spec_pairwise) simp
  have "dedup_spec [] ?out = ?out"
    using dedup_spec_fixed [of "[]" ?out] p by simp
  then show ?thesis using deduplicate_eq [of ls m] deduplicate_eq [of ?out m] f by simp
qed

text \<open>
  The theorem on five lines at \<open>min_confidence\<close> 50. The faint line is dropped by the
  filter. The line with another text on the box of the first survives. The line with the
  text of the first up to case and spacing and an IoU of about 0.8 with it is dropped as its
  duplicate, and the one with an IoU of about 0.3 survives.
\<close>

lemma spec_norm_examples:
  "spec_norm ''Total: 42'' = ''total: 42''"
  "spec_norm ''total:   42'' = ''total: 42''"
  "spec_norm ''Subtotal: 42'' = ''subtotal: 42''"
  by code_simp+

lemma line_norms:
  "spec_norm (u_DetectedText line_total) = ''total: 42''"
  "spec_norm (u_DetectedText line_total_near) = ''total: 42''"
  "spec_norm (u_DetectedText line_total_far) = ''total: 42''"
  "spec_norm (u_DetectedText line_other) = ''subtotal: 42''"
  by (simp_all add: line_total_def line_total_near_def line_total_far_def line_other_def
        spec_norm_examples)

lemma line_ious:
  "spec_iou (u_Box line_total_near) (u_Box line_total) = 800000000 / 1000000001"
  "spec_iou (u_Box line_total_far) (u_Box line_total) = 300000000 / 1000000001"
  by (simp_all add: line_total_def line_total_near_def line_total_far_def
        spec_iou_def spec_intersection_def spec_overlap_def)

lemma duplicate_total_near: "duplicate line_total_near line_total"
  by (simp add: duplicate_def line_norms line_ious)

lemma duplicate_total_far: "\<not> duplicate line_total_far line_total"
  by (simp add: duplicate_def line_norms line_ious)

lemma duplicate_other:
  "\<not> duplicate line_other line_total" "\<not> duplicate line_total_near line_other"
  "\<not> duplicate line_total_far line_other"
  by (simp_all add: duplicate_def line_norms)

lemma candidates_example:
  "filter (\<lambda>l. 50 \<le> u_Confidence l)
      [line_total, line_faint, line_other, line_total_near, line_total_far]
     = [line_total, line_other, line_total_near, line_total_far]"
  by (simp add: line_total_def line_faint_def line_other_def line_total_near_def
        line_total_far_def)

lemma dedup_spec_example:
  "dedup_spec [] [line_total, line_other, line_total_near, line_total_far]
     = [line_total, line_other, line_total_far]"
  by (simp add: duplicate_total_near duplicate_total_far duplicate_other)

theorem deduplicate_scan_order_pairwise_witness:
  "deduplicate [line_total, line_faint, line_other, line_total_near, line_total_far] 50
     = Inr [line_total, line_other, line_total_far]
   \<and> norm_text ''total:   42'' = ''total: 42''
   \<and> norm_text ''Subtotal: 42'' = ''subtotal: 42''
   \<and> iou (u_Box line_total_near) (u_Box line_total) = Inr (800000000 / 1000000001)
   \<and> duplicate line_total_near line_total
   \<and> \<not> duplicate line_total line_other
   \<and> \<not> duplicate line_other line_total
   \<and> \<not> duplicate line_other line_total_far
   \<and> \<not> duplicate line_total_far line_other"
proof -
  let ?ls = "[line_total, line_faint, line_other, line_total_near, line_total_far]"
  let ?out = "[line_total, line_other, line_total_far]"
  note t = deduplicate_scan_order_pairwise [of ?ls 50, unfolded candidates_example dedup_spec_example]
  from t have 1: "deduplicate ?ls 50 = Inr ?out"
    by (rule conjunct1)
  from t have n: "norm_text s = spec_norm s" for s by blast
  from t have i: "iou a b = Inr (spec_iou a b)" for a b by blast
  from t have p: "\<forall>i j. i < j \<longrightarrow> j < length ?out \<longrightarrow>
         \<not> duplicate (?out ! i) (?out ! j) \<and> \<not> duplicate (?out ! j) (?out ! i)"
    by blast
  from p have "(0::nat) < 1 \<longrightarrow> 1 < length ?out \<longrightarrow>
         \<not> duplicate (?out ! 0) (?out ! 1) \<and> \<not> duplicate (?out ! 1) (?out ! 0)"
    by blast
  then have 2: "\<not> duplicate line_total line_other \<and> \<not> duplicate line_other line_total"
    by simp
  from p have "(1::nat) < 2 \<longrightarrow> 2 < length ?out \<longrightarrow>
         \<not> duplicate (?out ! 1) (?out ! 2) \<and> \<not> duplicate (?out ! 2) (?out ! 1)"
    by blast
  then have 3: "\<not> duplicate line_other line_total_far \<and> \<not> duplicate line_total_far line_other"
    by simp
  have 4: "norm_text ''total:   42'' = ''total: 42''"
    "norm_text ''Subtotal: 42'' = ''subtotal: 42''"
    by (simp_all only: n spec_norm_examples)
  have 5: "iou (u_Box line_total_near) (u_Box line_total) = Inr (800000000 / 1000000001)"
    by (simp only: i line_ious)
  show ?thesis using 1 2 3 4 5 duplicate_total_near by blast
qed

text \<open>The theorem on two duplicate lines: one survives, and survives a second pass.\<close>

theorem deduplicate_idempotent_witness:
  "deduplicate [line_total, line_total_near] 50 = Inr [line_total]
   \<and> deduplicate [line_total] 50 = Inr [line_total]"
proof -
  have c: "filter (\<lambda>l. 50 \<le> u_Confidence l) [line_total, line_total_near]
             = [line_total, line_total_near]"
    by (simp add: line_total_def line_total_near_def)
  have 1: "deduplicate [line_total, line_total_near] 50 = Inr [line_total]"
    unfolding deduplicate_eq c by (simp add: duplicate_total_near)
  from deduplicate_idempotent [of "[line_total, line_total_near]" 50] 1
  have "deduplicate [line_total] 50 = Inr [line_total]" by auto
  with 1 show ?thesis by blast
qed

section \<open>Properties of the grouping\<close>

subsection \<open>The rows\<close>

lemma py_min_Min: "xs \<noteq> [] \<Longrightarrow> py_min xs = Inr (Min (set xs))"
  by (cases xs) (simp_all add: Min.set_eq_fold [symmetric])

lemma py_max_Max: "xs \<noteq> [] \<Longrightarrow> py_max xs = Inr (Max (set xs))"
  by (cases xs) (simp_all add: Max.set_eq_fold [symmetric])

lemma map_zip_self:
  "map (\<lambda>(l, w). f_add ops l (g w)) (zip (map f ws) ws) = map (\<lambda>w. f_add ops (f w) (g w)) ws"
  by (induction ws) simp_all

lemma make_line_eq:
  assumes "ws \<noteq> []"
  shows "make_line ops ws = Inr (spec_line ops (sort_key (\<lambda>w. Left (BoundingBox w)) ws))"
proof -
  let ?s = "sort_key (\<lambda>w. Left (BoundingBox w)) ws"
  have n: "?s \<noteq> []" using assms by (metis length_sort length_0_conv)
  have m: "max (Suc 0) (length ws) = length ws" using assms by (cases ws) simp_all
  show ?thesis
    using n
    by (simp add: make_line_def Let_def map_zip_self py_min_Min py_max_Max m spec_line_def
             del: set_map)
qed

lemma map_of_setdefault_append:
  "map_of (setdefault_append r w rows)
     = (map_of rows)(r \<mapsto> (case map_of rows r of None \<Rightarrow> [w] | Some ws \<Rightarrow> ws @ [w]))"
  by (induction rows) (auto simp: fun_eq_iff)

lemma map_fst_setdefault_append:
  "map fst (setdefault_append r w rows)
     = (if r \<in> fst ` set rows then map fst rows else map fst rows @ [r])"
proof (induction rows)
  case Nil
  show ?case by simp
next
  case (Cons p rows)
  obtain k ws where p: "p = (k, ws)" by (cases p)
  show ?case
  proof (cases "k = r")
    case True
    then show ?thesis by (simp add: p)
  next
    case False
    then show ?thesis using Cons by (auto simp: p)
  qed
qed

lemma build_rows_snoc:
  "build_rows ops (xs @ [w]) = setdefault_append (row_of ops w) w (build_rows ops xs)"
  by (simp add: build_rows_def)

lemma build_rows_inv:
  "distinct (map fst (build_rows ops xs))
   \<and> fst ` set (build_rows ops xs) = row_of ops ` set xs
   \<and> (\<forall>r. map_of (build_rows ops xs) r
           = (if r \<in> row_of ops ` set xs then Some (filter (\<lambda>w. row_of ops w = r) xs) else None))"
proof (induction xs rule: rev_induct)
  case Nil
  then show ?case by (simp add: build_rows_def)
next
  case (snoc w xs)
  let ?rows = "build_rows ops xs"
  have d: "distinct (map fst (build_rows ops (xs @ [w])))"
    using snoc by (auto simp: build_rows_snoc map_fst_setdefault_append)
  have s: "fst ` set (build_rows ops (xs @ [w])) = row_of ops ` set (xs @ [w])"
  proof -
    have "fst ` set (build_rows ops (xs @ [w])) = set (map fst (build_rows ops (xs @ [w])))"
      by simp
    also have "\<dots> = insert (row_of ops w) (fst ` set ?rows)"
      unfolding build_rows_snoc map_fst_setdefault_append by auto
    finally show ?thesis using snoc by auto
  qed
  have m: "map_of (build_rows ops (xs @ [w])) r
           = (if r \<in> row_of ops ` set (xs @ [w])
              then Some (filter (\<lambda>w. row_of ops w = r) (xs @ [w])) else None)" for r
  proof (cases "r = row_of ops w")
    case True
    show ?thesis
    proof (cases "row_of ops w \<in> row_of ops ` set xs")
      case in_xs: True
      then show ?thesis using snoc True
        by (simp add: build_rows_snoc map_of_setdefault_append)
    next
      case False
      have "\<not> row_of ops x = row_of ops w" if "x \<in> set xs" for x
        using False that by (metis imageI)
      then have "filter (\<lambda>v. row_of ops v = row_of ops w) xs = []"
        by (simp add: filter_empty_conv)
      then show ?thesis using snoc True False
        by (simp add: build_rows_snoc map_of_setdefault_append)
    qed
  next
    case False
    then show ?thesis using snoc
      by (auto simp: build_rows_snoc map_of_setdefault_append)
  qed
  show ?case using d s m by blast
qed

lemma map_fst_snd_fun:
  "\<forall>p\<in>set rs. snd p = g (fst p) \<Longrightarrow> rs = map (\<lambda>r. (r, g r)) (map fst rs)"
  by (induction rs) auto

lemma sorted_rows_eq:
  "sort_key fst (build_rows ops xs)
     = map (\<lambda>r. (r, filter (\<lambda>w. row_of ops w = r) xs)) (sorted_list_of_set (row_of ops ` set xs))"
proof -
  let ?rows = "build_rows ops xs"
  let ?rs = "sort_key fst ?rows"
  note inv = build_rows_inv [of ops xs]
  have "mset (map fst ?rs) = mset (map fst ?rows)" by simp
  then have d: "distinct (map fst ?rs)"
    using inv mset_eq_imp_distinct_iff by blast
  have s: "sorted (map fst ?rs)" by (rule sorted_sort_key)
  have e: "set (map fst ?rs) = row_of ops ` set xs" using inv by simp
  have k: "map fst ?rs = sorted_list_of_set (row_of ops ` set xs)"
    by (rule sorted_distinct_set_unique [OF s d]) (simp_all add: e del: set_map)
  have "\<forall>p\<in>set ?rs. snd p = filter (\<lambda>w. row_of ops w = fst p) xs"
  proof
    fix p assume "p \<in> set ?rs"
    then have pin: "(fst p, snd p) \<in> set ?rows" by simp
    have dr: "distinct (map fst ?rows)" using inv by blast
    have fp: "fst p \<in> row_of ops ` set xs" using inv pin by (metis fst_conv imageI)
    have "map_of ?rows (fst p) = Some (snd p)" using dr pin by (rule map_of_is_SomeI)
    moreover have "map_of ?rows (fst p) = Some (filter (\<lambda>w. row_of ops w = fst p) xs)"
      using inv fp by simp
    ultimately show "snd p = filter (\<lambda>w. row_of ops w = fst p) xs" by simp
  qed
  from map_fst_snd_fun [of ?rs "\<lambda>r. filter (\<lambda>w. row_of ops w = r) xs", OF this]
  show ?thesis unfolding k .
qed

lemma build_lines_eq:
  "\<forall>p\<in>set rows. snd p \<noteq> [] \<Longrightarrow>
   build_lines ops rows
     = Inr (map (\<lambda>p. spec_line ops (sort_key (\<lambda>w. Left (BoundingBox w)) (snd p))) rows)"
  by (induction rows) (auto simp: make_line_eq)

lemma group_value:
  "snd (group_words_into_lines ops ws)
     = Inr (map (\<lambda>r. spec_line ops (bucket_words ops ws r))
              (sorted_list_of_set (row_of ops ` set ws)))"
proof (cases "ws = []")
  case True
  then show ?thesis by (simp add: group_words_into_lines_def)
next
  case False
  let ?xs = "sort_key (words_sort_key ops) ws"
  have ne: "\<forall>p\<in>set (sort_key fst (build_rows ops ?xs)). snd p \<noteq> []"
    unfolding sorted_rows_eq by (auto simp: filter_empty_conv)
  show ?thesis
    using False
    by (simp add: group_words_into_lines_def Let_def build_lines_eq [OF ne])
       (simp add: sorted_rows_eq bucket_words_def comp_def)
qed


lemma mset_bucket_words:
  "mset (bucket_words ops ws r) = {#w \<in># mset ws. row_of ops w = r#}"
  by (simp add: bucket_words_def)



lemma tie_key_code: "tie_key ops w = (row_of ops w, words_sort_key ops w)"
  by (simp add: tie_key_def row_of_def words_sort_key_def center_y_def spec_centre_def band_def)


subsection \<open>Evaluation on the example words, in exact arithmetic\<close>

lemma example_rows:
  "row_of exact_ops word_hello = 3" "row_of exact_ops word_world = 3"
  "row_of exact_ops word_next = 13"
  "spec_bucket exact_ops word_hello = 3" "spec_bucket exact_ops word_world = 3"
  "spec_bucket exact_ops word_next = 13"
  by (simp_all add: row_of_def spec_bucket_def py_int_def center_y_def spec_centre_def
        exact_ops_def band_def word_hello_def word_world_def word_next_def)

lemma example_keys:
  "words_sort_key exact_ops word_hello = (12, 0)"
  "words_sort_key exact_ops word_world = (14, 12 / 100)"
  "words_sort_key exact_ops word_next = (52, 0)"
  by (simp_all add: words_sort_key_def py_round_def center_y_def exact_ops_def Let_def
        word_hello_def word_world_def word_next_def)

lemma example_lefts:
  "Left (BoundingBox word_hello) = 0" "Left (BoundingBox word_world) = 12 / 100"
  "Left (BoundingBox word_next) = 0"
  by (simp_all add: word_hello_def word_world_def word_next_def)

lemma example_sorted_keys: "sorted_list_of_set {3, 13 :: int} = [3, 13]"
  by code_simp

lemma example_bucket_words:
  "bucket_words exact_ops [word_hello, word_world, word_next] 3 = [word_hello, word_world]"
  "bucket_words exact_ops [word_hello, word_world, word_next] 13 = [word_next]"
  by (simp_all add: bucket_words_def example_rows example_keys example_lefts)

lemma example_group:
  "snd (group_words_into_lines exact_ops [word_hello, word_world, word_next])
     = Inr [spec_line exact_ops [word_hello, word_world], spec_line exact_ops [word_next]]"
  by (simp add: group_value example_rows example_sorted_keys example_bucket_words)


subsection \<open>Rows, order in a row, and the lines\<close>



subsection \<open>The order of the input\<close>

lemma insort_key_lex:
  "sorted (map (\<lambda>x. (f x, g x)) ys) \<Longrightarrow> \<forall>y\<in>set ys. g x \<le> g y \<Longrightarrow>
   sorted (map (\<lambda>x. (f x, g x)) (insort_key f x ys))"
  by (induction ys) (auto simp: set_insort_key)

lemma sort_key_lex:
  "sorted (map (\<lambda>x. (g x, f x)) xs) \<Longrightarrow> sorted (map (\<lambda>x. (f x, g x)) (sort_key f xs))"
proof (induction xs)
  case Nil
  then show ?case by simp
next
  case (Cons x xs)
  have "\<forall>y\<in>set (sort_key f xs). g x \<le> g y" using Cons.prems by auto
  moreover have "sorted (map (\<lambda>x. (f x, g x)) (sort_key f xs))" using Cons by simp
  ultimately show ?case by (simp add: insort_key_lex)
qed

lemma sorted_inj_unique:
  assumes "sorted (map k xs)" "sorted (map k ys)" "mset xs = mset ys" "inj_on k (set xs)"
  shows "xs = ys"
proof -
  have "mset (map k ys) = mset (map k xs)" using assms(3) by simp
  then have "sort (map k xs) = map k ys" using assms(2) by (rule properties_for_sort)
  then have "map k xs = map k ys" using assms(1) by (simp add: sorted_sort_id)
  moreover have "set xs \<union> set ys = set xs" using assms(3) by (auto dest: mset_eq_setD)
  ultimately show ?thesis using assms(4) by (simp add: inj_on_map_eq_map)
qed

lemma bucket_words_perm:
  assumes "mset ws = mset ws'"
    and "inj_on (\<lambda>w. (row_of ops w, words_sort_key ops w)) (set ws)"
  shows "bucket_words ops ws r = bucket_words ops ws' r"
proof -
  let ?f = "\<lambda>w. Left (BoundingBox w)"
  let ?g = "\<lambda>w. py_round (f_mul ops (center_y ops (BoundingBox w)) 100)"
  let ?k = "\<lambda>w. (?f w, ?g w)"
  have key: "words_sort_key ops = (\<lambda>w. (?g w, ?f w))"
    by (simp add: fun_eq_iff words_sort_key_def)
  have s: "sorted (map ?k (bucket_words ops vs r))" for vs
  proof -
    have "sorted (map (\<lambda>w. (?g w, ?f w))
            (filter (\<lambda>w. row_of ops w = r) (sort_key (\<lambda>w. (?g w, ?f w)) vs)))"
      by (rule sorted_filter) (rule sorted_sort_key)
    then show ?thesis unfolding bucket_words_def key by (rule sort_key_lex)
  qed
  have m: "mset (bucket_words ops ws r) = mset (bucket_words ops ws' r)"
    using assms(1) by (simp add: mset_bucket_words)
  have "set (bucket_words ops ws r) \<subseteq> {w \<in> set ws. row_of ops w = r}"
    by (auto simp: bucket_words_def)
  moreover have "inj_on ?k {w \<in> set ws. row_of ops w = r}"
    using assms(2) by (auto simp: inj_on_def words_sort_key_def)
  ultimately have i: "inj_on ?k (set (bucket_words ops ws r))"
    by (rule inj_on_subset [rotated])
  show ?thesis using s [of ws] s [of ws'] m i by (rule sorted_inj_unique)
qed

text \<open>
  Claim C7, as the code has it. \<open>group\<close> is a function of its argument, and for every
  sequence of words in which no two different words agree in row \<open>int(centre / 0.04)\<close>, in
  rounded centre \<open>round(100 * centre)\<close> and in left (\<open>tie_key\<close>), and for every permutation
  of that sequence, \<open>group\<close> returns the same lines for both orderings: the same order of
  lines and the same text, confidence and box in each. The arithmetic is that of \<open>ops\<close>,
  whatever its rounding.
\<close>

theorem group_order_insensitive_without_ties:
  assumes "mset ws = mset ws'"
    and "inj_on (tie_key ops) (set ws)"
  shows "snd (group_words_into_lines ops ws) = snd (group_words_into_lines ops ws')"
proof -
  have "tie_key ops = (\<lambda>w. (row_of ops w, words_sort_key ops w))"
    by (simp add: fun_eq_iff tie_key_code)
  then have i: "inj_on (\<lambda>w. (row_of ops w, words_sort_key ops w)) (set ws)"
    using assms(2) by simp
  have "set ws = set ws'" using assms(1) by (rule mset_eq_setD)
  moreover have "bucket_words ops ws r = bucket_words ops ws' r" for r
    using assms(1) i by (rule bucket_words_perm)
  ultimately show ?thesis by (simp add: group_value)
qed

text \<open>The theorem on the three words of the example and their reversal.\<close>

theorem group_order_insensitive_without_ties_witness:
  "mset [word_hello, word_world, word_next] = mset [word_next, word_world, word_hello]
   \<and> inj_on (tie_key exact_ops) (set [word_hello, word_world, word_next])
   \<and> snd (group_words_into_lines exact_ops [word_next, word_world, word_hello])
       = Inr [spec_line exact_ops [word_hello, word_world], spec_line exact_ops [word_next]]"
proof -
  have m: "mset [word_hello, word_world, word_next] = mset [word_next, word_world, word_hello]"
    by (simp add: add_mset_commute)
  have i: "inj_on (tie_key exact_ops) (set [word_hello, word_world, word_next])"
    by (auto simp: inj_on_def tie_key_code example_rows example_keys)
  from group_order_insensitive_without_ties [OF m i] example_group
  have "snd (group_words_into_lines exact_ops [word_next, word_world, word_hello])
       = Inr [spec_line exact_ops [word_hello, word_world], spec_line exact_ops [word_next]]"
    by simp
  with m i show ?thesis by blast
qed

text \<open>
  Two words on one box keep the order of the input, whatever the arithmetic: both sorts are
  stable and neither key tells the words apart.
\<close>

lemma group_tie:
  assumes "BoundingBox v = BoundingBox w"
  shows "snd (group_words_into_lines ops [v, w]) = Inr [spec_line ops [v, w]]"
proof -
  have r: "row_of ops v = row_of ops w" and k: "words_sort_key ops v = words_sort_key ops w"
    using assms by (simp_all add: row_of_def words_sort_key_def)
  have b: "bucket_words ops [v, w] (row_of ops w) = [v, w]"
    using assms by (simp add: bucket_words_def r k)
  show ?thesis by (simp add: group_value r b)
qed

text \<open>
  Claim C7 as stated fails on two words with the same box and the texts \<open>A\<close> and \<open>B\<close>: the
  input \<open>[A, B]\<close> gives the line \<open>A B\<close>, and its permutation \<open>[B, A]\<close> gives \<open>B A\<close>.
\<close>

theorem group_order_sensitive_on_ties:
  "snd (group_words_into_lines exact_ops [word_a, word_b]) = Inr [spec_line exact_ops [word_a, word_b]]
   \<and> snd (group_words_into_lines exact_ops [word_b, word_a]) = Inr [spec_line exact_ops [word_b, word_a]]
   \<and> DetectedText (spec_line exact_ops [word_a, word_b]) = ''A B''
   \<and> DetectedText (spec_line exact_ops [word_b, word_a]) = ''B A''
   \<and> snd (group_words_into_lines exact_ops [word_a, word_b])
       \<noteq> snd (group_words_into_lines exact_ops [word_b, word_a])"
proof -
  have e: "BoundingBox word_a = BoundingBox word_b" by (simp add: word_a_def word_b_def)
  have 1: "snd (group_words_into_lines exact_ops [word_a, word_b])
      = Inr [spec_line exact_ops [word_a, word_b]]"
    using e by (rule group_tie)
  have 2: "snd (group_words_into_lines exact_ops [word_b, word_a])
      = Inr [spec_line exact_ops [word_b, word_a]]"
    using e [symmetric] by (rule group_tie)
  have 3: "DetectedText (spec_line exact_ops [word_a, word_b]) = ''A B''"
    "DetectedText (spec_line exact_ops [word_b, word_a]) = ''B A''"
    by (simp_all add: spec_line_def word_a_def word_b_def)
  have "spec_line exact_ops [word_a, word_b] \<noteq> spec_line exact_ops [word_b, word_a]"
    using 3 by auto
  then show ?thesis using 1 2 3 by simp
qed

subsection \<open>The arguments after the call\<close>




end
